theory Spec2Isabelle
  imports Complex_Main "HOL-Library.Multiset"
begin

unbundle bit_operations_syntax

section \<open>The board, as the agent reads it\<close>

text \<open>
  \<^verbatim>\<open>agent.h\<close> includes \<^verbatim>\<open>board.h\<close>, \<^verbatim>\<open>action.h\<close> and \<^verbatim>\<open>weight.h\<close>, which are not among the
  sources. Of a board the agent uses two operations only: the cell read \<^verbatim>\<open>board(i)\<close> and
  \<^verbatim>\<open>slide(op)\<close>.

  Modelled from the spec: the board type of \<^verbatim>\<open>board.h\<close>. A board is 16 cells in row-major
  order, each an unsigned tile rank, 0 for an empty cell. The model is the cell read itself:
  a function from the cell number to the rank. Only the cells 0..15 are ever read.
  \<^verbatim>\<open>slide\<close> is a parameter of every function that calls it.
\<close>

type_synonym board = "nat \<Rightarrow> nat"

text \<open>
  Modelled from the spec: the boards that reach the agent. Neither \<^verbatim>\<open>board.h\<close> nor the game
  loop is among the sources, so reachability is a predicate here, with the two facts about a
  board of the game that the index computation depends on: every tile rank fits a nibble
  (the specification's "bounded tile ranks"), and the board holds at least one tile (the
  player is asked for a move after tiles were placed, and a slide merges tiles without
  removing the last one). The empty board, the one board with 16 empty cells, is outside it.
\<close>

definition reachable_board :: "board \<Rightarrow> bool" where
  "reachable_board b = (list_all (\<lambda>i. b i < 16) [0..<16] \<and> list_ex (\<lambda>i. b i \<noteq> 0) [0..<16])"

section \<open>Feature\<close>

text \<open>
  A feature is the \<^verbatim>\<open>std::vector<int>\<close> of its cell positions; \<open>-1\<close> stands for the hint
  slot. The positions index a 16-cell board and the two 16-entry permutation tables, so a
  position other than \<open>-1\<close> and 0..15 is an out-of-bounds read in the source (undefined
  behaviour in C++). \<open>valid_feature\<close> is the precondition that excludes it; every
  statement about positions below carries it.
\<close>

type_synonym feature = "int list"

definition valid_position :: "int \<Rightarrow> bool" where
  "valid_position p = (p = -1 \<or> (0 \<le> p \<and> p < 16))"

definition valid_feature :: "feature \<Rightarrow> bool" where
  "valid_feature feat = list_all valid_position feat"

text \<open>The first loop of \<^verbatim>\<open>Feature::operator()\<close>: the number of empty cells.\<close>

definition empty_count :: "board \<Rightarrow> nat" where
  "empty_count b = fold (\<lambda>i empty. if b i = 0 then empty + 1 else empty) [0..<16] 0"

text \<open>
  \<^verbatim>\<open>Feature::operator()\<close>: the index is shifted left by four bits and the nibble of the
  next position is or-ed in. The source computes in \<^verbatim>\<open>long long\<close>; the model computes in
  \<open>nat\<close>, which agrees as long as the result is below \<open>2 ^ 63\<close> (the index bounds proved
  below give \<open>16 ^ length\<close> on the boards of the game).
\<close>

definition feature_index :: "feature \<Rightarrow> board \<Rightarrow> nat" where
  "feature_index feature b =
     (let empty = empty_count b
      in fold (\<lambda>feat idx.
                 if feat = -1 then push_bit 4 idx OR empty
                 else push_bit 4 idx OR b (nat feat))
           feature 0)"

definition feature_size :: "feature \<Rightarrow> int" where
  "feature_size feature = int (length feature)"

text \<open>
  \<^verbatim>\<open>Feature::hash\<close>: the loop state is the pair of \<^verbatim>\<open>i\<close> and \<^verbatim>\<open>flag\<close>. The source computes in
  a 32-bit \<^verbatim>\<open>int\<close>; for positions 0..15 the result is below \<open>2 ^ 16\<close> in absolute value, so
  the unbounded \<open>int\<close> of the model computes the same.
\<close>

definition hash :: "feature \<Rightarrow> int" where
  "hash feature =
     (let (i, flag) =
            fold (\<lambda>k (i, flag).
                    if k = -1 then (i, True)
                    else (i OR push_bit (nat k) 1, flag))
              feature (0, False)
      in if flag then - i else i)"

text \<open>\<^verbatim>\<open>Feature::operator==\<close> compares hashes.\<close>

definition feature_eq :: "feature \<Rightarrow> feature \<Rightarrow> bool" where
  "feature_eq f g = (hash f = hash g)"

section \<open>IsoFeature\<close>

definition right_rotation_matching :: "int list" where
  "right_rotation_matching = [12,8,4,0,13,9,5,1,14,10,6,2,15,11,7,3]"

definition reflection_matching :: "int list" where
  "reflection_matching = [15,11,7,3,14,10,6,2,13,9,5,1,12,8,4,0]"

text \<open>
  The tables above are \<^verbatim>\<open>_right_rotation_matching\<close> and \<^verbatim>\<open>_reflection_matching\<close> of the
  source. The loops of \<^verbatim>\<open>left_rotate\<close> and \<^verbatim>\<open>reflection\<close> skip a \<open>-1\<close> and push the table
  entry of every other position.
\<close>

definition left_rotate :: "feature \<Rightarrow> feature" where
  "left_rotate feat =
     fold (\<lambda>i vec. if i = -1 then vec else vec @ [right_rotation_matching ! nat i]) feat []"

definition reflection :: "feature \<Rightarrow> feature" where
  "reflection feat =
     fold (\<lambda>i vec. if i = -1 then vec else vec @ [reflection_matching ! nat i]) feat []"

text \<open>
  The first loop of \<^verbatim>\<open>create_iso_feature\<close> rotates, then pushes; the second pushes, then
  rotates. Both return the current feature and the list built so far.
\<close>

fun rotate_then_push :: "nat \<Rightarrow> feature \<Rightarrow> (int \<times> feature) list \<Rightarrow> feature \<times> (int \<times> feature) list" where
  "rotate_then_push 0 tmp isos = (tmp, isos)"
| "rotate_then_push (Suc n) tmp isos =
     (let tmp' = left_rotate tmp in rotate_then_push n tmp' (isos @ [(hash tmp', tmp')]))"

fun push_then_rotate :: "nat \<Rightarrow> feature \<Rightarrow> (int \<times> feature) list \<Rightarrow> feature \<times> (int \<times> feature) list" where
  "push_then_rotate 0 tmp isos = (tmp, isos)"
| "push_then_rotate (Suc n) tmp isos =
     push_then_rotate n (left_rotate tmp) (isos @ [(hash tmp, tmp)])"

text \<open>
  \<^verbatim>\<open>std::sort\<close> with the comparator \<^verbatim>\<open>a.first > b.first\<close>: descending by hash. The standard
  leaves the order of entries with equal hashes open. The model is the insertion sort that
  keeps them in their order of generation (which is what libstdc++ runs on a range of at most
  16 elements).
\<close>

fun insert_desc :: "int \<times> feature \<Rightarrow> (int \<times> feature) list \<Rightarrow> (int \<times> feature) list" where
  "insert_desc x [] = [x]"
| "insert_desc x (y # ys) = (if fst x > fst y then x # y # ys else y # insert_desc x ys)"

definition sort_desc :: "(int \<times> feature) list \<Rightarrow> (int \<times> feature) list" where
  "sort_desc xs = fold insert_desc xs []"

text \<open>
  \<^verbatim>\<open>std::unique\<close> keeps the first entry of every run of equal neighbours. Equality of
  \<^verbatim>\<open>std::pair<int,Feature>\<close> is equality of both components, the second by
  \<^verbatim>\<open>Feature::operator==\<close>.
\<close>

definition pair_eq :: "int \<times> feature \<Rightarrow> int \<times> feature \<Rightarrow> bool" where
  "pair_eq a b = (fst a = fst b \<and> feature_eq (snd a) (snd b))"

fun unique :: "(int \<times> feature) list \<Rightarrow> (int \<times> feature) list" where
  "unique [] = []"
| "unique [x] = [x]"
| "unique (x # y # ys) = (if pair_eq x y then unique (x # ys) else x # unique (y # ys))"

definition generated :: "feature \<Rightarrow> (int \<times> feature) list" where
  "generated feat =
     (let (tmp, isos) = rotate_then_push 5 feat [];
          tmp = reflection tmp;
          (tmp, isos) = push_then_rotate 4 tmp isos
      in isos)"

definition create_iso_feature :: "feature \<Rightarrow> feature list" where
  "create_iso_feature feat =
     (let with_hint = (-1 \<in> set feat);
          isos = unique (sort_desc (generated feat))
      in map (\<lambda>f. if with_hint then snd f @ [-1] else snd f) isos)"

section \<open>Agents\<close>

text \<open>
  \<^verbatim>\<open>std::exit(-1)\<close> ends the process inside the call: a function that can reach it returns
  an outcome, and every caller passes \<open>Exited\<close> on.
\<close>

datatype 'a outcome = Exited int | Returned 'a

subsection \<open>agent: the option map\<close>

text \<open>
  \<^verbatim>\<open>agent::agent\<close> reads the whitespace-separated words of
  \<^verbatim>\<open>"name=unknown role=unknown " + args\<close>; the key of a word is what stands before its first
  \<^verbatim>\<open>=\<close>, the value what stands after it (for a word without \<^verbatim>\<open>=\<close> both are the word).
\<close>

definition is_space :: "char \<Rightarrow> bool" where
  "is_space c = (c \<in> set [CHR '' '', CHR 0x09, CHR 0x0A, CHR 0x0B, CHR 0x0C, CHR 0x0D])"

fun words_of :: "string \<Rightarrow> string \<Rightarrow> string list" where
  "words_of [] cur = (if cur = [] then [] else [cur])"
| "words_of (c # cs) cur =
     (if is_space c then (if cur = [] then words_of cs [] else cur # words_of cs [])
      else words_of cs (cur @ [c]))"

definition key_of :: "string \<Rightarrow> string" where
  "key_of pair = takeWhile (\<lambda>c. c \<noteq> CHR ''='') pair"

definition value_of :: "string \<Rightarrow> string" where
  "value_of pair = (if CHR ''='' \<in> set pair then tl (dropWhile (\<lambda>c. c \<noteq> CHR ''='') pair) else pair)"

definition agent :: "string \<Rightarrow> (string \<rightharpoonup> string)" where
  "agent args =
     fold (\<lambda>pair meta. meta(key_of pair \<mapsto> value_of pair))
       (words_of (''name=unknown role=unknown '' @ args) []) Map.empty"

subsection \<open>weight_agent: the tables and the learning rate\<close>

text \<open>
  Modelled from the spec: the weight table of \<^verbatim>\<open>weight.h\<close>, a dense array of numbers
  addressed by a feature index, created with a given length and all entries zero. The
  source holds \<^verbatim>\<open>float\<close> entries and computes values in \<^verbatim>\<open>double\<close>. The tables of the
  agent hold real numbers here: that is exact on finite values, says nothing about rounding,
  and has no infinity and no NaN. The section on non-finite values below gives
  \<^verbatim>\<open>get_value\<close> and \<^verbatim>\<open>update_weight\<close> once more over tables that can hold them.

  \<^verbatim>\<open>net\<close> is sized by \<^verbatim>\<open>init_weights\<close> and \<^verbatim>\<open>load_weights\<close> only, and no read or write of it
  is checked: past the end of a table or of \<^verbatim>\<open>net\<close> the source is undefined. \<open>tables_hold\<close>
  below says that a board stays inside the tables; the statements that depend on a value
  read or written carry it, or the bounds themselves, as hypotheses.
\<close>

type_synonym weight = "real list"

record weight_agent =
  meta :: "string \<rightharpoonup> string"
  net :: "weight list"
  alpha :: real

text \<open>
  \<^verbatim>\<open>init_weights\<close>: every character that is not a digit becomes a blank, then sizes are
  read until the stream fails: at its end, or at a number that does not fit \<^verbatim>\<open>size_t\<close>.
\<close>

definition is_digit :: "char \<Rightarrow> bool" where
  "is_digit c = (c \<in> set ''0123456789'')"

definition decimal :: "string \<Rightarrow> nat" where
  "decimal ds = fold (\<lambda>c n. 10 * n + (of_char c - 48)) ds 0"

definition init_weights :: "string \<Rightarrow> weight_agent \<Rightarrow> weight_agent" where
  "init_weights info w =
     (let res = map (\<lambda>ch. if is_digit ch then ch else CHR '' '') info;
          sizes = takeWhile (\<lambda>n. n < 2 ^ 64) (map decimal (words_of res []))
      in w\<lparr>net := net w @ map (\<lambda>size. replicate size 0) sizes\<rparr>)"

text \<open>
  \<^verbatim>\<open>load_weights\<close> and \<^verbatim>\<open>save_weights\<close>. The file system is a parameter: \<open>open_in path\<close> is
  the content of the file when it opens for reading, \<open>open_out path\<close> says whether it
  opens for writing. What is read after a successful open is decided by the stream
  operators of \<^verbatim>\<open>weight.h\<close>, so \<open>read_net\<close>, the tables a content holds, is a parameter
  too. A successful save returns the path and the tables written.
\<close>

definition load_weights ::
  "(string \<Rightarrow> 'f option) \<Rightarrow> ('f \<Rightarrow> weight list) \<Rightarrow> string \<Rightarrow> weight_agent \<Rightarrow> weight_agent outcome" where
  "load_weights open_in read_net path w =
     (case open_in path of
        None \<Rightarrow> Exited (-1)
      | Some content \<Rightarrow> Returned (w\<lparr>net := read_net content\<rparr>))"

definition save_weights ::
  "(string \<Rightarrow> bool) \<Rightarrow> string \<Rightarrow> weight_agent \<Rightarrow> (string \<times> weight list) outcome" where
  "save_weights open_out path w =
     (if \<not> open_out path then Exited (-1) else Returned (path, net w))"

text \<open>
  The constructor: \<^verbatim>\<open>alpha(0)\<close>, then \<^verbatim>\<open>init\<close>, \<^verbatim>\<open>load\<close> and \<^verbatim>\<open>alpha\<close> in this order.
  \<open>stod\<close> is \<^verbatim>\<open>std::stod\<close>, the conversion behind \<^verbatim>\<open>float(meta["alpha"])\<close>.
\<close>

definition weight_agent_ctor ::
  "(string \<Rightarrow> real) \<Rightarrow> (string \<Rightarrow> 'f option) \<Rightarrow> ('f \<Rightarrow> weight list) \<Rightarrow> string \<Rightarrow> weight_agent outcome" where
  "weight_agent_ctor stod open_in read_net args =
     (let w0 = \<lparr>meta = agent args, net = [], alpha = 0\<rparr>;
          w1 = (case meta w0 ''init'' of None \<Rightarrow> w0 | Some info \<Rightarrow> init_weights info w0)
      in case (case meta w1 ''load'' of
                 None \<Rightarrow> Returned w1
               | Some path \<Rightarrow> load_weights open_in read_net path w1) of
           Exited code \<Rightarrow> Exited code
         | Returned w2 \<Rightarrow>
             Returned (case meta w2 ''alpha'' of
                         None \<Rightarrow> w2
                       | Some v \<Rightarrow> w2\<lparr>alpha := stod v\<rparr>))"

text \<open>The destructor saves when a \<^verbatim>\<open>save\<close> option is there.\<close>

definition weight_agent_dtor ::
  "(string \<Rightarrow> bool) \<Rightarrow> weight_agent \<Rightarrow> (string \<times> weight list) option outcome" where
  "weight_agent_dtor open_out w =
     (case meta w ''save'' of
        None \<Rightarrow> Returned None
      | Some path \<Rightarrow>
          (case save_weights open_out path w of
             Exited code \<Rightarrow> Exited code
           | Returned written \<Rightarrow> Returned (Some written)))"

subsection \<open>ntuple: the weighted n-tuple network\<close>

definition feats :: "feature list" where
  "feats = [[0,1,2,3,4,5], [4,5,6,7,8,9], [5,6,7,9,10,11], [9,10,11,13,14,15]]"

text \<open>
  Modelled from the spec: the action of \<^verbatim>\<open>action.h\<close>. \<open>Slide op\<close> is \<^verbatim>\<open>action::slide(op)\<close>,
  \<open>NoAction\<close> the default-constructed \<^verbatim>\<open>action()\<close>.
\<close>

datatype action = Slide int | NoAction

text \<open>\<^verbatim>\<open>history\<close> is a \<^verbatim>\<open>std::stack\<close>: the head of the list is its top.\<close>

record ntuple = weight_agent +
  features :: "feature list list"
  feature_num :: int
  op_code :: "int list"
  history :: "(board \<times> int) list"

definition ntuple_ctor ::
  "(string \<Rightarrow> real) \<Rightarrow> (string \<Rightarrow> 'f option) \<Rightarrow> ('f \<Rightarrow> weight list) \<Rightarrow> string \<Rightarrow> ntuple outcome" where
  "ntuple_ctor stod open_in read_net args =
     (case weight_agent_ctor stod open_in read_net args of
        Exited code \<Rightarrow> Exited code
      | Returned w \<Rightarrow>
          (let fs = fold (\<lambda>vec fs. fs @ [create_iso_feature vec]) feats [];
               n = fold (\<lambda>f n. n + int (length f)) fs 0
           in Returned \<lparr>meta = meta w, net = net w, alpha = alpha w,
                         features = fs, feature_num = n, op_code = [0,1,2,3], history = []\<rparr>))"

text \<open>
  \<^verbatim>\<open>get_value\<close>. \<open>net ag ! i ! idx\<close> is the read \<^verbatim>\<open>net[i][idx]\<close>. In HOL the read of a list
  past its end is some unspecified number; in the source it is undefined behaviour. So
  \<open>get_value ag b\<close> is the value the source returns only when \<open>tables_hold ag b\<close>.
\<close>

definition get_value :: "ntuple \<Rightarrow> board \<Rightarrow> real" where
  "get_value ag b =
     fold (\<lambda>i sum. fold (\<lambda>f sum. sum + net ag ! i ! feature_index f b) (features ag ! i) sum)
       [0..<length (features ag)] 0"

text \<open>
  \<^verbatim>\<open>take_action\<close>. \<open>slide before op\<close> is the copy of the board after \<^verbatim>\<open>slide(op)\<close> and the
  reward, \<open>-1\<close> for an illegal move. The loop state is \<^verbatim>\<open>best\<close>, \<^verbatim>\<open>best_op\<close> and \<^verbatim>\<open>rew\<close>;
  \<^verbatim>\<open>rew\<close> is not initialised in the source and is read only after an assignment, the model
  starts it at 0.
\<close>

definition try_op ::
  "(board \<Rightarrow> int \<Rightarrow> board \<times> int) \<Rightarrow> ntuple \<Rightarrow> board \<Rightarrow> int \<Rightarrow> real \<times> int \<times> int \<Rightarrow> real \<times> int \<times> int" where
  "try_op slide ag before op st =
     (case st of (best, best_op, rew) \<Rightarrow>
        (let (after, reward) = slide before op
         in if reward \<noteq> -1
            then (let estimate = get_value ag after + real_of_int reward
                  in if estimate > best then (estimate, op, reward) else (best, best_op, rew))
            else (best, best_op, rew)))"

definition take_action ::
  "(board \<Rightarrow> int \<Rightarrow> board \<times> int) \<Rightarrow> board \<Rightarrow> ntuple \<Rightarrow> action \<times> ntuple" where
  "take_action slide before ag =
     (case fold (try_op slide ag before) (op_code ag) (-1, -1, 0) of
        (best, best_op, rew) \<Rightarrow>
          if best_op \<noteq> -1
          then (Slide best_op, ag\<lparr>history := (before, rew) # history ag\<rparr>)
          else (NoAction, ag\<lparr>history := (before, 0) # history ag\<rparr>))"

definition update_weight :: "real \<Rightarrow> board \<Rightarrow> ntuple \<Rightarrow> ntuple" where
  "update_weight target cur ag =
     (let value = get_value ag cur;
          tg = alpha ag / real_of_int (feature_num ag) * (target - value)
      in ag\<lparr>net :=
              fold (\<lambda>i n. fold (\<lambda>f n. (let idx = feature_index f cur
                                         in n[i := (n ! i)[idx := n ! i ! idx + tg]]))
                              (features ag ! i) n)
                [0..<length (features ag)] (net ag)\<rparr>)"

text \<open>
  In \<^verbatim>\<open>update_weight\<close> the write \<^verbatim>\<open>net[i][idx] += tg\<close> is unchecked too: the list update of
  HOL leaves a list as it is when the index is past its end, where the source writes out of
  bounds. Again \<open>tables_hold ag cur\<close> is what makes the model and the source agree. Over
  the real numbers a learning rate 0 gives the step \<open>tg = 0\<close>; the source computes
  \<open>0 * (target - value)\<close> in \<^verbatim>\<open>double\<close>, which is NaN when the value or the target is not
  finite (\<open>update_weight_ieee\<close> below).
\<close>

definition open_episode :: "ntuple \<Rightarrow> ntuple" where
  "open_episode ag = ag\<lparr>history := []\<rparr>"

text \<open>
  The loop of \<^verbatim>\<open>close_episode\<close>, with \<^verbatim>\<open>prev\<close> as its argument. It runs as long as the
  history of the agent is not empty.
\<close>

lemma history_update_weight [simp]: "history (update_weight target cur ag) = history ag"
  by (simp add: update_weight_def Let_def)

function close_loop :: "board \<Rightarrow> ntuple \<Rightarrow> ntuple" where
  "close_loop prev ag =
     (case history ag of
        [] \<Rightarrow> ag
      | current # rest \<Rightarrow>
          (let ag1 = ag\<lparr>history := rest\<rparr>;
               tg = real_of_int (snd current) + get_value ag1 prev;
               ag2 = update_weight tg (fst current) ag1
           in close_loop (fst current) ag2))"
  by pat_completeness auto
termination
  by (relation "measure (\<lambda>(prev, ag). length (history ag))") auto

text \<open>
  \<^verbatim>\<open>close_episode\<close> reads \<^verbatim>\<open>history.top()\<close> first. On an empty stack that is undefined
  behaviour: the model returns \<open>None\<close> there.
\<close>

definition close_episode :: "ntuple \<Rightarrow> ntuple option" where
  "close_episode ag =
     (case history ag of
        [] \<Rightarrow> None
      | current # rest \<Rightarrow>
          (let ag1 = ag\<lparr>history := rest\<rparr>;
               ag2 = update_weight 0 (fst current) ag1
           in Some (close_loop (fst current) ag2)))"

text \<open>
  \<^verbatim>\<open>agent::notify\<close> stores one more option. It writes \<^verbatim>\<open>meta\<close> only: the learning rate
  was read at construction.
\<close>

definition notify :: "string \<Rightarrow> ntuple \<Rightarrow> ntuple" where
  "notify msg ag = ag\<lparr>meta := (meta ag)(key_of msg \<mapsto> value_of msg)\<rparr>"

section \<open>Sequences of calls\<close>

text \<open>
  The calls an owner of the agent can make, and their effect in order. \<open>None\<close> is the
  undefined \<^verbatim>\<open>close_episode\<close> on an empty history.
\<close>

definition take_actions :: "(board \<Rightarrow> int \<Rightarrow> board \<times> int) \<Rightarrow> board list \<Rightarrow> ntuple \<Rightarrow> ntuple" where
  "take_actions slide bs ag = fold (\<lambda>b ag. snd (take_action slide b ag)) bs ag"

datatype call = TakeAction board | OpenEpisode | CloseEpisode | UpdateWeight real board | Notify string

fun run_call :: "(board \<Rightarrow> int \<Rightarrow> board \<times> int) \<Rightarrow> call \<Rightarrow> ntuple \<Rightarrow> ntuple option" where
  "run_call slide (TakeAction b) ag = Some (snd (take_action slide b ag))"
| "run_call slide OpenEpisode ag = Some (open_episode ag)"
| "run_call slide CloseEpisode ag = close_episode ag"
| "run_call slide (UpdateWeight target b) ag = Some (update_weight target b ag)"
| "run_call slide (Notify msg) ag = Some (notify msg ag)"

fun run_calls :: "(board \<Rightarrow> int \<Rightarrow> board \<times> int) \<Rightarrow> call list \<Rightarrow> ntuple \<Rightarrow> ntuple option" where
  "run_calls slide [] ag = Some ag"
| "run_calls slide (c # cs) ag =
     (case run_call slide c ag of None \<Rightarrow> None | Some ag' \<Rightarrow> run_calls slide cs ag')"

section \<open>The backward pass as the specification words it\<close>

text \<open>
  The calls of \<^verbatim>\<open>updateWeight\<close> that the specification lists for \<^verbatim>\<open>closeEpisode\<close>: the
  terminal state with target 0 first; then, for every entry popped, the target is its
  reward plus the value of the previous state, read from the tables as the calls before
  it left them. \<open>replay\<close> makes the calls in order.
\<close>

fun spec_calls :: "board \<Rightarrow> (board \<times> int) list \<Rightarrow> ntuple \<Rightarrow> (real \<times> board) list" where
  "spec_calls previous [] ag = []"
| "spec_calls previous ((state, reward) # rest) ag =
     (let target = real_of_int reward + get_value ag previous
      in (target, state) # spec_calls state rest (update_weight target state ag))"

definition spec_close_calls :: "ntuple \<Rightarrow> (real \<times> board) list" where
  "spec_close_calls ag =
     (case history ag of
        [] \<Rightarrow> []
      | (terminal, reward) # rest \<Rightarrow>
          (0, terminal) # spec_calls terminal rest (update_weight 0 terminal ag))"

definition replay :: "(real \<times> board) list \<Rightarrow> ntuple \<Rightarrow> ntuple" where
  "replay calls ag = fold (\<lambda>(target, state) ag. update_weight target state ag) calls ag"

section \<open>Move selection, in the words of the specification\<close>

text \<open>
  A move is legal when \<^verbatim>\<open>slide\<close> does not return the reward \<open>-1\<close>; the estimate of a move is
  the value of its afterstate plus its reward.
\<close>

definition legal :: "(board \<Rightarrow> int \<Rightarrow> board \<times> int) \<Rightarrow> board \<Rightarrow> int \<Rightarrow> bool" where
  "legal slide before op = (snd (slide before op) \<noteq> -1)"

definition estimate :: "(board \<Rightarrow> int \<Rightarrow> board \<times> int) \<Rightarrow> ntuple \<Rightarrow> board \<Rightarrow> int \<Rightarrow> real" where
  "estimate slide ag before op =
     get_value ag (fst (slide before op)) + real_of_int (snd (slide before op))"

section \<open>Where the calls are defined\<close>

text \<open>
  \<open>tables_hold ag b\<close>: every table that \<^verbatim>\<open>get_value\<close> and \<^verbatim>\<open>update_weight\<close> address for the
  board \<open>b\<close> exists, and the index of every feature on \<open>b\<close> is inside its table. These are
  the accesses \<^verbatim>\<open>net[i][idx]\<close> of the two functions, for \<open>i\<close> below \<^verbatim>\<open>features.size()\<close> and
  \<open>idx\<close> the index of a feature of orbit \<open>i\<close>.
\<close>

definition tables_hold :: "ntuple \<Rightarrow> board \<Rightarrow> bool" where
  "tables_hold ag b =
     (length (features ag) \<le> length (net ag) \<and>
      list_all (\<lambda>i. list_all (\<lambda>f. feature_index f b < length (net ag ! i)) (features ag ! i))
        [0..<length (features ag)])"

text \<open>
  \<^verbatim>\<open>take_action\<close> calls \<^verbatim>\<open>get_value(after)\<close> for every move with a reward other than \<open>-1\<close>.
\<close>

definition take_action_defined ::
  "(board \<Rightarrow> int \<Rightarrow> board \<times> int) \<Rightarrow> board \<Rightarrow> ntuple \<Rightarrow> bool" where
  "take_action_defined slide before ag =
     list_all (\<lambda>op. snd (slide before op) \<noteq> -1 \<longrightarrow> tables_hold ag (fst (slide before op)))
       (op_code ag)"

text \<open>
  \<^verbatim>\<open>close_episode\<close> reads the top of the stack, and it calls \<^verbatim>\<open>update_weight\<close> and
  \<^verbatim>\<open>get_value\<close> on the recorded boards and on nothing else. The calls do not resize a table
  (\<open>update_weight_sizes\<close> below), so the tables are those of the agent at the call.
\<close>

definition close_episode_defined :: "ntuple \<Rightarrow> bool" where
  "close_episode_defined ag =
     (history ag \<noteq> [] \<and> list_all (\<lambda>entry. tables_hold ag (fst entry)) (history ag))"

text \<open>
  A sequence of calls is defined when each call is, in the state the calls before it have
  left.
\<close>

fun call_defined :: "(board \<Rightarrow> int \<Rightarrow> board \<times> int) \<Rightarrow> call \<Rightarrow> ntuple \<Rightarrow> bool" where
  "call_defined slide (TakeAction b) ag = take_action_defined slide b ag"
| "call_defined slide OpenEpisode ag = True"
| "call_defined slide CloseEpisode ag = close_episode_defined ag"
| "call_defined slide (UpdateWeight target b) ag = tables_hold ag b"
| "call_defined slide (Notify msg) ag = True"

fun calls_defined :: "(board \<Rightarrow> int \<Rightarrow> board \<times> int) \<Rightarrow> call list \<Rightarrow> ntuple \<Rightarrow> bool" where
  "calls_defined slide [] ag = True"
| "calls_defined slide (c # cs) ag =
     (call_defined slide c ag \<and>
      (case run_call slide c ag of None \<Rightarrow> False | Some ag' \<Rightarrow> calls_defined slide cs ag'))"

section \<open>Non-finite values\<close>

text \<open>
  The values a \<^verbatim>\<open>double\<close> or a \<^verbatim>\<open>float\<close> can hold: the finite numbers, the two infinities
  and NaN. Finite numbers are real numbers here, so there is no rounding and no overflow,
  and the two zeros are one.
\<close>

datatype double = Finite real | PlusInfinity | MinusInfinity | NaN

text \<open>
  The arithmetic of IEEE 754 on these values. It is exact on finite operands, a division
  by 0 apart: \<open>0 / 0\<close> is NaN, and any other finite number divided by 0 is the infinity
  of its sign (the divisor of the source is a cast of an \<^verbatim>\<open>int\<close>, so a zero is \<open>+0\<close>). A NaN
  operand gives NaN, and so do \<open>\<infinity> - \<infinity>\<close>, \<open>0 * \<infinity>\<close> and \<open>\<infinity> / \<infinity>\<close>. A finite number divided by
  an infinity is 0. Every other operation with an infinite operand gives the infinity
  that the signs of the operands decide.
\<close>

fun double_neg :: "double \<Rightarrow> double" where
  "double_neg (Finite x) = Finite (- x)"
| "double_neg PlusInfinity = MinusInfinity"
| "double_neg MinusInfinity = PlusInfinity"
| "double_neg NaN = NaN"

fun double_add :: "double \<Rightarrow> double \<Rightarrow> double" where
  "double_add (Finite x) (Finite y) = Finite (x + y)"
| "double_add NaN y = NaN"
| "double_add x NaN = NaN"
| "double_add PlusInfinity MinusInfinity = NaN"
| "double_add MinusInfinity PlusInfinity = NaN"
| "double_add PlusInfinity y = PlusInfinity"
| "double_add x PlusInfinity = PlusInfinity"
| "double_add MinusInfinity y = MinusInfinity"
| "double_add x MinusInfinity = MinusInfinity"

definition double_sub :: "double \<Rightarrow> double \<Rightarrow> double" where
  "double_sub x y = double_add x (double_neg y)"

fun double_mul :: "double \<Rightarrow> double \<Rightarrow> double" where
  "double_mul (Finite x) (Finite y) = Finite (x * y)"
| "double_mul NaN y = NaN"
| "double_mul x NaN = NaN"
| "double_mul (Finite x) PlusInfinity =
     (if x = 0 then NaN else if 0 < x then PlusInfinity else MinusInfinity)"
| "double_mul (Finite x) MinusInfinity =
     (if x = 0 then NaN else if 0 < x then MinusInfinity else PlusInfinity)"
| "double_mul PlusInfinity (Finite y) =
     (if y = 0 then NaN else if 0 < y then PlusInfinity else MinusInfinity)"
| "double_mul MinusInfinity (Finite y) =
     (if y = 0 then NaN else if 0 < y then MinusInfinity else PlusInfinity)"
| "double_mul PlusInfinity PlusInfinity = PlusInfinity"
| "double_mul PlusInfinity MinusInfinity = MinusInfinity"
| "double_mul MinusInfinity PlusInfinity = MinusInfinity"
| "double_mul MinusInfinity MinusInfinity = PlusInfinity"

fun double_div :: "double \<Rightarrow> double \<Rightarrow> double" where
  "double_div (Finite x) (Finite y) =
     (if y = 0 then (if x = 0 then NaN else if 0 < x then PlusInfinity else MinusInfinity)
      else Finite (x / y))"
| "double_div NaN y = NaN"
| "double_div x NaN = NaN"
| "double_div (Finite x) PlusInfinity = Finite 0"
| "double_div (Finite x) MinusInfinity = Finite 0"
| "double_div PlusInfinity (Finite y) = (if 0 \<le> y then PlusInfinity else MinusInfinity)"
| "double_div MinusInfinity (Finite y) = (if 0 \<le> y then MinusInfinity else PlusInfinity)"
| "double_div PlusInfinity PlusInfinity = NaN"
| "double_div PlusInfinity MinusInfinity = NaN"
| "double_div MinusInfinity PlusInfinity = NaN"
| "double_div MinusInfinity MinusInfinity = NaN"

text \<open>
  \<^verbatim>\<open>get_value\<close> and \<^verbatim>\<open>update_weight\<close> over tables of such values: the same two loops, with
  the tables, the features, \<^verbatim>\<open>alpha\<close> and \<^verbatim>\<open>feature_num\<close> as arguments.
  \<open>Finite (real_of_int fnum)\<close> is the cast \<^verbatim>\<open>(double)(feature_num)\<close>. On tables of finite
  values that hold the indices they are \<open>get_value\<close> and \<open>update_weight\<close>
  (\<open>get_value_ieee_finite\<close> and \<open>update_weight_ieee_finite\<close> below).
\<close>

definition get_value_ieee :: "double list list \<Rightarrow> feature list list \<Rightarrow> board \<Rightarrow> double" where
  "get_value_ieee tables fs b =
     fold (\<lambda>i sum. fold (\<lambda>f sum. double_add sum (tables ! i ! feature_index f b)) (fs ! i) sum)
       [0..<length fs] (Finite 0)"

definition update_weight_ieee ::
  "double \<Rightarrow> int \<Rightarrow> feature list list \<Rightarrow> double \<Rightarrow> board \<Rightarrow> double list list \<Rightarrow> double list list" where
  "update_weight_ieee rate fnum fs target cur tables =
     (let value = get_value_ieee tables fs cur;
          tg = double_mul (double_div rate (Finite (real_of_int fnum))) (double_sub target value)
      in fold (\<lambda>i n. fold (\<lambda>f n. (let idx = feature_index f cur
                                     in n[i := (n ! i)[idx := double_add (n ! i ! idx) tg]]))
                          (fs ! i) n)
           [0..<length fs] tables)"

section \<open>Positions, symmetries and contributions\<close>

text \<open>
  The two permutation tables as functions on positions, the positions of a feature that are
  not the hint slot, and the property that every position of a list is a cell of the board.
\<close>

definition rot :: "int \<Rightarrow> int" where
  "rot i = right_rotation_matching ! nat i"

definition refl_pos :: "int \<Rightarrow> int" where
  "refl_pos i = reflection_matching ! nat i"

definition real_positions :: "feature \<Rightarrow> int list" where
  "real_positions feat = filter (\<lambda>i. i \<noteq> -1) feat"

definition on_board :: "int list \<Rightarrow> bool" where
  "on_board p = list_all (\<lambda>i. 0 \<le> i \<and> i < 16) p"

text \<open>
  The compositions of the tables that \<^verbatim>\<open>create_iso_feature\<close> applies, in the order of its
  two loops: one to five rotations, then the reflection of the fifth, followed by up to
  three more rotations.
\<close>

definition variant_maps :: "(int \<Rightarrow> int) list" where
  "variant_maps =
     [rot, rot ^^ 2, rot ^^ 3, rot ^^ 4, rot ^^ 5,
      refl_pos \<circ> rot ^^ 5, rot \<circ> refl_pos \<circ> rot ^^ 5,
      rot ^^ 2 \<circ> refl_pos \<circ> rot ^^ 5, rot ^^ 3 \<circ> refl_pos \<circ> rot ^^ 5]"

text \<open>
  What "the hint slot stays where it was" says of a feature and a variant of it: the two
  lists have the same length and a \<open>-1\<close> in the same places.
\<close>

definition hint_slots_kept :: "feature \<Rightarrow> feature \<Rightarrow> bool" where
  "hint_slots_kept feat v = list_all2 (\<lambda>p q. (p = -1) = (q = -1)) feat v"

text \<open>
  The rotation of a feature as the specification words it: every position other than the
  hint slot goes through the rotation table, and a hint slot stays where it is. (The
  \<^verbatim>\<open>left_rotate\<close> of the source drops the hint slot, and \<^verbatim>\<open>create_iso_feature\<close> appends one
  to every variant of a feature that had one.)
\<close>

definition rotate_keeping_hint :: "feature \<Rightarrow> feature" where
  "rotate_keeping_hint feat = map (\<lambda>i. if i = -1 then -1 else right_rotation_matching ! nat i) feat"

text \<open>
  The symmetries of the board, as maps of cell numbers: the rotations generated by the
  rotation table, and each of them after the reflection table. The board seen through a
  symmetry \<open>g\<close> is \<open>b \<circ> g\<close>: its cell \<open>i\<close> is the cell \<open>g i\<close> of \<open>b\<close>.
\<close>

definition rotate_cell :: "nat \<Rightarrow> nat" where
  "rotate_cell i = nat (right_rotation_matching ! i)"

definition reflect_cell :: "nat \<Rightarrow> nat" where
  "reflect_cell i = nat (reflection_matching ! i)"

definition rotations :: "(nat \<Rightarrow> nat) list" where
  "rotations = [id, rotate_cell, rotate_cell \<circ> rotate_cell, rotate_cell \<circ> rotate_cell \<circ> rotate_cell]"

definition reflections :: "(nat \<Rightarrow> nat) list" where
  "reflections = map (\<lambda>r. r \<circ> reflect_cell) rotations"

definition symmetries :: "(nat \<Rightarrow> nat) list" where
  "symmetries = rotations @ reflections"

text \<open>The contribution of base feature \<open>i\<close> to \<^verbatim>\<open>get_value\<close>: the inner loop.\<close>

definition table_value :: "ntuple \<Rightarrow> nat \<Rightarrow> board \<Rightarrow> real" where
  "table_value ag i b = (\<Sum>f\<leftarrow>features ag ! i. net ag ! i ! feature_index f b)"

text \<open>
  Notions for the proofs: one step of the inner loop of \<^verbatim>\<open>update_weight\<close>, over the real
  numbers and over the values of a \<^verbatim>\<open>double\<close>; the bits of a hash, before the sign; and a
  set of cells of the board.
\<close>

definition bump :: "nat \<Rightarrow> nat \<Rightarrow> real \<Rightarrow> weight list \<Rightarrow> weight list" where
  "bump i idx tg n = n[i := (n ! i)[idx := n ! i ! idx + tg]]"

definition bump_double :: "nat \<Rightarrow> nat \<Rightarrow> double \<Rightarrow> double list list \<Rightarrow> double list list" where
  "bump_double i idx tg n = n[i := (n ! i)[idx := double_add (n ! i ! idx) tg]]"

definition mask_of :: "int list \<Rightarrow> int \<Rightarrow> int" where
  "mask_of p acc = fold (\<lambda>k i. if k = -1 then i else i OR push_bit (nat k) 1) p acc"

definition in_board :: "int set \<Rightarrow> bool" where
  "in_board X = (\<forall>x\<in>X. 0 \<le> x \<and> x < 16)"

section \<open>Frame and bookkeeping lemmas\<close>

lemma get_value_history [simp]: "get_value (ag\<lparr>history := h\<rparr>) b = get_value ag b"
  by (simp add: get_value_def)

lemma update_weight_history:
  "update_weight t b (ag\<lparr>history := h\<rparr>) = (update_weight t b ag)\<lparr>history := h\<rparr>"
  by (simp add: update_weight_def Let_def)

lemma inner_fold_zero:
  "fold (\<lambda>f n. (let idx = g f in n[i := (n ! i)[idx := n ! i ! idx + (0::real)]])) fs n = n"
  by (induction fs arbitrary: n) (simp_all add: Let_def)

lemma outer_fold_id: "(\<And>i n. h i n = n) \<Longrightarrow> fold h is n = n"
  by (induction "is" arbitrary: n) simp_all

lemma update_weight_alpha0: "alpha ag = 0 \<Longrightarrow> update_weight t b ag = ag"
  by (simp add: update_weight_def Let_def inner_fold_zero outer_fold_id)

declare close_loop.simps [simp del]

lemma close_loop_Nil: "history ag = [] \<Longrightarrow> close_loop prev ag = ag"
  by (subst close_loop.simps) simp

lemma close_loop_Cons:
  "history ag = current # rest \<Longrightarrow>
   close_loop prev ag =
     close_loop (fst current)
       (update_weight (real_of_int (snd current) + get_value ag prev) (fst current)
          (ag\<lparr>history := rest\<rparr>))"
  by (subst close_loop.simps) (simp add: Let_def)

lemma history_close_loop: "history (close_loop prev ag) = []"
proof (induction prev ag rule: close_loop.induct)
  case (1 prev ag)
  show ?case
  proof (cases "history ag")
    case Nil
    then show ?thesis by (simp add: close_loop_Nil)
  next
    case (Cons current rest)
    then show ?thesis using 1 by (simp add: close_loop_Cons Let_def)
  qed
qed

lemma spec_calls_history:
  "spec_calls prev h (ag\<lparr>history := x\<rparr>) = spec_calls prev h ag"
  by (induction prev h ag rule: spec_calls.induct) (simp_all add: Let_def update_weight_history)

lemma length_spec_calls: "length (spec_calls prev h ag) = length h"
  by (induction prev h ag rule: spec_calls.induct) (simp_all add: Let_def)

lemma close_loop_replay:
  "close_loop prev ag = replay (spec_calls prev (history ag) ag) (ag\<lparr>history := []\<rparr>)"
proof (induction prev ag rule: close_loop.induct)
  case (1 prev ag)
  show ?case
  proof (cases "history ag")
    case Nil
    then show ?thesis by (simp add: close_loop_Nil replay_def)
  next
    case (Cons current rest)
    obtain state reward where c: "current = (state, reward)" by (cases current)
    let ?tg = "real_of_int reward + get_value ag prev"
    let ?ag2 = "update_weight ?tg state (ag\<lparr>history := rest\<rparr>)"
    have "close_loop prev ag = close_loop state ?ag2"
      using Cons c by (simp add: close_loop_Cons)
    also have "\<dots> = replay (spec_calls state (history ?ag2) ?ag2) (?ag2\<lparr>history := []\<rparr>)"
      using 1 [OF Cons refl refl refl] c by simp
    also have "\<dots> = replay (spec_calls prev (history ag) ag) (ag\<lparr>history := []\<rparr>)"
      using Cons c by (simp add: replay_def update_weight_history spec_calls_history Let_def)
    finally show ?thesis .
  qed
qed

lemma history_take_action:
  "\<exists>rew. history (snd (take_action slide b ag)) = (b, rew) # history ag"
  by (simp add: take_action_def split: prod.splits)

lemma length_history_take_actions:
  "length (history (take_actions slide bs ag)) = length bs + length (history ag)"
proof (induction bs arbitrary: ag)
  case Nil
  then show ?case by (simp add: take_actions_def)
next
  case (Cons b bs)
  obtain rew where "history (snd (take_action slide b ag)) = (b, rew) # history ag"
    using history_take_action by blast
  then show ?case using Cons [of "snd (take_action slide b ag)"]
    by (simp add: take_actions_def)
qed

lemma close_episode_empties:
  "history ag \<noteq> [] \<Longrightarrow> \<exists>ag'. close_episode ag = Some ag' \<and> history ag' = []"
  by (cases "history ag") (simp_all add: close_episode_def Let_def history_close_loop)

lemma close_loop_alpha0:
  "alpha ag = 0 \<Longrightarrow> net (close_loop prev ag) = net ag \<and> alpha (close_loop prev ag) = 0"
proof (induction prev ag rule: close_loop.induct)
  case (1 prev ag)
  show ?case
  proof (cases "history ag")
    case Nil
    then show ?thesis using 1(2) by (simp add: close_loop_Nil)
  next
    case (Cons current rest)
    have "update_weight (real_of_int (snd current) + get_value ag prev) (fst current)
            (ag\<lparr>history := rest\<rparr>) = ag\<lparr>history := rest\<rparr>"
      using 1(2) by (simp add: update_weight_alpha0)
    then show ?thesis
      using 1(1) [OF Cons refl refl refl] 1(2) Cons by (simp add: close_loop_Cons)
  qed
qed

lemma close_episode_alpha0:
  "alpha ag = 0 \<Longrightarrow> close_episode ag = Some ag' \<Longrightarrow> net ag' = net ag \<and> alpha ag' = 0"
  by (cases "history ag")
     (auto simp: close_episode_def Let_def update_weight_alpha0 close_loop_alpha0)

lemma take_action_frame:
  "net (snd (take_action slide b ag)) = net ag \<and> alpha (snd (take_action slide b ag)) = alpha ag"
  by (simp add: take_action_def split: prod.splits)

lemma run_call_alpha0:
  "alpha ag = 0 \<Longrightarrow> run_call slide c ag = Some ag' \<Longrightarrow> net ag' = net ag \<and> alpha ag' = 0"
  by (cases c)
     (auto simp: take_action_frame open_episode_def update_weight_alpha0 notify_def
           dest: close_episode_alpha0)

lemma run_calls_alpha0:
  "alpha ag = 0 \<Longrightarrow> run_calls slide cs ag = Some ag' \<Longrightarrow> net ag' = net ag \<and> alpha ag' = 0"
proof (induction cs arbitrary: ag)
  case Nil
  then show ?case by simp
next
  case (Cons c cs)
  then obtain ag1 where s: "run_call slide c ag = Some ag1" and r: "run_calls slide cs ag1 = Some ag'"
    by (auto split: option.splits)
  from run_call_alpha0 [OF Cons.prems(1) s] Cons.IH [OF _ r] show ?case by simp
qed

lemma ntuple_ctor_alpha:
  "ntuple_ctor stod open_in read_net args = Returned ag0 \<Longrightarrow> agent args ''alpha'' = None \<Longrightarrow>
   alpha ag0 = 0"
  by (auto simp: ntuple_ctor_def weight_agent_ctor_def Let_def init_weights_def load_weights_def
           split: option.splits outcome.splits)

lemma agent_empty_args:
  "agent [] ''alpha'' = None \<and> agent [] ''init'' = None \<and> agent [] ''load'' = None"
  by (simp add: agent_def is_space_def key_of_def value_of_def)

lemma agent_load: "agent ''load=w.bin'' ''load'' = Some ''w.bin''"
  by (simp add: agent_def is_space_def key_of_def value_of_def)

lemma bump_length [simp]: "length (bump i idx tg n) = length n"
  by (simp add: bump_def)

lemma bump_row_length [simp]: "length (bump i idx tg n ! i') = length (n ! i')"
  by (cases "i < length n"; cases "i' = i") (simp_all add: bump_def list_update_beyond)

lemma bump_nth:
  "i' < length n \<Longrightarrow> j < length (n ! i') \<Longrightarrow>
   bump i idx tg n ! i' ! j = n ! i' ! j + (if i' = i \<and> j = idx then tg else 0)"
  by (cases "i' = i") (auto simp: bump_def nth_list_update)

lemma inner_fold:
  "i' < length n \<Longrightarrow> j < length (n ! i') \<Longrightarrow>
   length (fold (\<lambda>f n. bump i (g f) tg n) fs n) = length n \<and>
   length (fold (\<lambda>f n. bump i (g f) tg n) fs n ! i') = length (n ! i') \<and>
   fold (\<lambda>f n. bump i (g f) tg n) fs n ! i' ! j =
     n ! i' ! j + (if i' = i then tg * real (length (filter (\<lambda>f. g f = j) fs)) else 0)"
proof (induction fs arbitrary: n)
  case Nil
  then show ?case by simp
next
  case (Cons f fs)
  have a: "i' < length (bump i (g f) tg n)" using Cons.prems by simp
  have b: "j < length (bump i (g f) tg n ! i')" using Cons.prems by simp
  from Cons.IH [OF a b] bump_nth [OF Cons.prems, of i "g f" tg]
  show ?case by (simp add: algebra_simps)
qed

lemma outer_fold:
  "i' < length n \<Longrightarrow> j < length (n ! i') \<Longrightarrow>
   length (fold (\<lambda>i n. fold (\<lambda>f n. bump i (g f) tg n) (fss ! i) n) [0..<k] n) = length n \<and>
   length (fold (\<lambda>i n. fold (\<lambda>f n. bump i (g f) tg n) (fss ! i) n) [0..<k] n ! i') = length (n ! i') \<and>
   fold (\<lambda>i n. fold (\<lambda>f n. bump i (g f) tg n) (fss ! i) n) [0..<k] n ! i' ! j =
     n ! i' ! j + (if i' < k then tg * real (length (filter (\<lambda>f. g f = j) (fss ! i'))) else 0)"
proof (induction k)
  case 0
  then show ?case by simp
next
  case (Suc k)
  let ?m = "fold (\<lambda>i n. fold (\<lambda>f n. bump i (g f) tg n) (fss ! i) n) [0..<k] n"
  have a: "i' < length ?m" using Suc by simp
  have b: "j < length (?m ! i')" using Suc by simp
  from inner_fold [OF a b, of k g tg "fss ! k"] Suc.IH [OF Suc.prems]
  show ?case by (auto simp: less_Suc_eq)
qed

lemma update_weight_net:
  "net (update_weight target b ag) =
     fold (\<lambda>i n. fold (\<lambda>f n. bump i (feature_index f b)
                      (alpha ag / real_of_int (feature_num ag) * (target - get_value ag b)) n)
                   (features ag ! i) n)
       [0..<length (features ag)] (net ag)"
  by (simp add: update_weight_def Let_def bump_def)

lemma update_weight_pointwise:
  assumes "i < length (net ag)" and "j < length (net ag ! i)"
  shows "net (update_weight target b ag) ! i ! j =
     net ag ! i ! j +
       alpha ag / real_of_int (feature_num ag) * (target - get_value ag b) *
       real (length (filter (\<lambda>f. feature_index f b = j)
                (if i < length (features ag) then features ag ! i else [])))"
  using outer_fold [OF assms, of "\<lambda>f. feature_index f b" _ "features ag" "length (features ag)"]
  by (simp add: update_weight_net)

lemma configured_features:
  "map create_iso_feature feats =
   [[[15,14,13,12,11,10],[12,13,14,15,8,9],[15,11,7,3,14,10],[3,7,11,15,2,6],
     [12,8,4,0,13,9],[0,4,8,12,1,5],[3,2,1,0,7,6],[0,1,2,3,4,5]],
    [[14,10,6,2,13,9],[13,9,5,1,14,10],[2,6,10,14,1,5],[1,5,9,13,2,6],
     [11,10,9,8,7,6],[8,9,10,11,4,5],[7,6,5,4,11,10],[4,5,6,7,8,9]],
    [[6,10,14,5,9,13],[5,6,7,9,10,11],[10,9,8,6,5,4],[9,5,1,10,6,2]],
    [[9,10,11,13,14,15],[6,10,14,7,11,15],[10,9,8,14,13,12],[5,9,13,4,8,12],
     [10,6,2,11,7,3],[9,5,1,8,4,0],[5,6,7,1,2,3],[6,5,4,2,1,0]]]"
  by code_simp

lemma fold_snoc_map: "fold (\<lambda>x ys. ys @ [h x]) xs acc = acc @ map h xs"
  by (induction xs arbitrary: acc) simp_all

lemma fold_add_length:
  "fold (\<lambda>f n. n + int (length f)) fs acc = acc + int (length (concat fs))"
  by (induction fs arbitrary: acc) simp_all

lemma ntuple_ctor_fields:
  assumes "ntuple_ctor stod open_in read_net args = Returned ag0"
  shows "features ag0 = map create_iso_feature feats \<and>
         feature_num ag0 = int (length (concat (features ag0))) \<and>
         op_code ag0 = [0,1,2,3] \<and> history ag0 = []"
  using assms
  by (auto simp: ntuple_ctor_def Let_def fold_snoc_map fold_add_length split: outcome.splits)

lemma configured_feature_num: "int (length (concat (map create_iso_feature feats))) = 28"
  by (simp add: configured_features)

lemma update_weight_fields [simp]:
  "features (update_weight t b ag) = features ag"
  "feature_num (update_weight t b ag) = feature_num ag"
  "op_code (update_weight t b ag) = op_code ag"
  by (simp_all add: update_weight_def Let_def)

lemma close_loop_fields:
  "features (close_loop prev ag) = features ag \<and>
   feature_num (close_loop prev ag) = feature_num ag \<and>
   op_code (close_loop prev ag) = op_code ag"
proof (induction prev ag rule: close_loop.induct)
  case (1 prev ag)
  show ?case
  proof (cases "history ag")
    case Nil
    then show ?thesis by (simp add: close_loop_Nil)
  next
    case (Cons current rest)
    then show ?thesis using 1 [OF Cons refl refl refl] by (simp add: close_loop_Cons)
  qed
qed

lemma run_call_fields:
  "run_call slide c ag = Some ag' \<Longrightarrow>
   features ag' = features ag \<and> feature_num ag' = feature_num ag \<and> op_code ag' = op_code ag"
  by (cases c)
     (auto simp: take_action_def open_episode_def notify_def close_episode_def Let_def
                 close_loop_fields split: prod.splits list.splits if_splits)

lemma run_calls_fields:
  "run_calls slide cs ag = Some ag' \<Longrightarrow>
   features ag' = features ag \<and> feature_num ag' = feature_num ag \<and> op_code ag' = op_code ag"
proof (induction cs arbitrary: ag)
  case Nil
  then show ?case by simp
next
  case (Cons c cs)
  then obtain ag1 where s: "run_call slide c ag = Some ag1" and r: "run_calls slide cs ag1 = Some ag'"
    by (auto split: option.splits)
  from run_call_fields [OF s] Cons.IH [OF r] show ?case by simp
qed

lemma feature_index_zero_board:
  "-1 \<notin> set f \<Longrightarrow> feature_index f (\<lambda>i. 0) = 0"
proof -
  have "-1 \<notin> set f \<Longrightarrow>
        fold (\<lambda>feat idx. if feat = -1 then push_bit 4 idx OR e else push_bit 4 idx OR (0::nat)) f 0 = 0" for e
    by (induction f) auto
  then show "-1 \<notin> set f \<Longrightarrow> feature_index f (\<lambda>i. 0) = 0"
    by (simp add: feature_index_def Let_def)
qed

lemma configured_no_hint:
  "orbit \<in> set (map create_iso_feature feats) \<Longrightarrow> f \<in> set orbit \<Longrightarrow> -1 \<notin> set f"
  unfolding configured_features by auto

lemma agent_load_alpha:
  "agent ''load=w alpha=0.5'' ''init'' = None \<and>
   agent ''load=w alpha=0.5'' ''load'' = Some ''w'' \<and>
   agent ''load=w alpha=0.5'' ''alpha'' = Some ''0.5''"
  by (simp add: agent_def is_space_def key_of_def value_of_def)

subsection \<open>Index bounds\<close>

lemma empty_count_filter:
  "fold (\<lambda>i empty. if b i = 0 then empty + 1 else empty) xs acc
     = acc + length (filter (\<lambda>i. b i = 0) xs)"
  by (induction xs arbitrary: acc) simp_all

lemma empty_count_eq: "empty_count b = length (filter (\<lambda>i. b i = 0) [0..<16])"
  by (simp add: empty_count_def empty_count_filter)

lemma empty_count_le_16: "empty_count b \<le> 16"
  using length_filter_le [of "\<lambda>i. b i = 0" "[0..<16]"] by (simp add: empty_count_eq)

lemma empty_count_reachable: "reachable_board b \<Longrightarrow> empty_count b \<le> 15"
proof -
  assume "reachable_board b"
  then obtain i where "i \<in> set [0..<16]" "b i \<noteq> 0"
    by (auto simp: reachable_board_def list_ex_iff)
  then have "length (filter (\<lambda>i. b i = 0) [0..<16]) < length [0..<16]"
    by (intro length_filter_less [of i]) auto
  then show ?thesis by (simp add: empty_count_eq)
qed

lemma empty_count_empty_board: "empty_count (\<lambda>i. 0) = 16"
  by (simp add: empty_count_eq)

lemma nibble_or_add:
  fixes idx v :: nat
  assumes "v < 16"
  shows "push_bit 4 idx OR v = 16 * idx + v"
proof -
  have v: "take_bit 4 v = v" using assms by (simp add: take_bit_nat_eq_self_iff)
  have "\<not> bit (push_bit 4 idx) n \<or> \<not> bit v n" for n
  proof (cases "n < 4")
    case True
    then show ?thesis by (simp add: bit_push_bit_iff_nat)
  next
    case False
    have "bit v n = bit (take_bit 4 v) n" using v by simp
    then show ?thesis using False by (simp add: bit_take_bit_iff)
  qed
  then have "push_bit 4 idx + v = push_bit 4 idx OR v" by (rule disjunctive_add)
  then show ?thesis by (simp add: push_bit_eq_mult)
qed

lemma nibble_step:
  fixes idx v :: nat
  assumes "idx < 16 ^ k" and "v < 16"
  shows "push_bit 4 idx OR v < 16 ^ Suc k"
proof -
  have "push_bit 4 idx OR v = 16 * idx + v" using assms(2) by (rule nibble_or_add)
  also have "\<dots> < 16 * (idx + 1)" using assms(2) by simp
  also have "\<dots> \<le> 16 * 16 ^ k" using assms(1) by (intro mult_le_mono2) simp
  finally show ?thesis by simp
qed

lemma index_fold_bound:
  assumes "(e::nat) \<le> 15" and "list_all (\<lambda>i. b i < 16) [0..<16]"
  shows "valid_feature f \<Longrightarrow> idx < 16 ^ k \<Longrightarrow>
     fold (\<lambda>feat idx. if feat = -1 then push_bit 4 idx OR e
                        else push_bit 4 idx OR b (nat feat)) f idx < 16 ^ (k + length f)"
proof (induction f arbitrary: idx k)
  case Nil
  then show ?case by simp
next
  case (Cons p f)
  have v: "valid_feature f" and p: "valid_position p"
    using Cons.prems(1) by (simp_all add: valid_feature_def)
  have "(if p = -1 then e else b (nat p)) < 16"
  proof (cases "p = -1")
    case True
    then show ?thesis using assms(1) by simp
  next
    case False
    then have "nat p \<in> set [0..<16]" using p by (auto simp: valid_position_def)
    then show ?thesis using assms(2) False by (simp add: list_all_iff)
  qed
  then have "push_bit 4 idx OR (if p = -1 then e else b (nat p)) < 16 ^ Suc k"
    using Cons.prems(2) by (rule nibble_step [rotated])
  from Cons.IH [OF v this] show ?case by (simp split: if_splits)
qed

lemma no_hint_index_in_range:
  "list_all (\<lambda>i. b i < 16) [0..<16] \<Longrightarrow> valid_feature f \<Longrightarrow> -1 \<notin> set f \<Longrightarrow>
   feature_index f b < 16 ^ length f"
proof -
  assume c: "list_all (\<lambda>i. b i < 16) [0..<16]" and v: "valid_feature f" and h: "-1 \<notin> set f"
  have same: "-1 \<notin> set f \<Longrightarrow>
        fold (\<lambda>feat idx. if feat = -1 then push_bit 4 idx OR e else push_bit 4 idx OR b (nat feat)) f idx
      = fold (\<lambda>feat idx. if feat = -1 then push_bit 4 idx OR e' else push_bit 4 idx OR b (nat feat)) f idx"
    for e e' :: nat and idx
    by (induction f arbitrary: idx) auto
  have "fold (\<lambda>feat idx. if feat = -1 then push_bit 4 idx OR 0 else push_bit 4 idx OR b (nat feat)) f 0
          < 16 ^ (0 + length f)"
    by (rule index_fold_bound [OF _ c v]) simp_all
  then show ?thesis
    unfolding feature_index_def Let_def using same [OF h, of "empty_count b" 0 0] by simp
qed

lemma hint_index_empty_board: "feature_index [-1] (\<lambda>i. 0) = 16"
  by (simp add: feature_index_def empty_count_empty_board)

lemma index_packing_example:
  "feature_index [0,1,2,3,4,5] ((\<lambda>i. 0)(0 := 1, 1 := 2, 2 := 3, 3 := 4, 4 := 5, 5 := 6)) = 0x123456"
  by (simp add: feature_index_def push_bit_eq_mult)

subsection \<open>The selection loop of take_action\<close>

lemma try_op_eq:
  "try_op slide ag before op (best, best_op, rew) =
     (if legal slide before op \<and> estimate slide ag before op > best
      then (estimate slide ag before op, op, snd (slide before op))
      else (best, best_op, rew))"
  by (simp add: try_op_def legal_def estimate_def Let_def split: prod.splits)

lemma loop_spec:
  "fold (try_op slide ag before) ops (b0, bop0, r0) = (b, bop, r) \<Longrightarrow>
     b0 \<le> b \<and>
     (\<forall>op\<in>set ops. legal slide before op \<longrightarrow> estimate slide ag before op \<le> b) \<and>
     ((b, bop, r) = (b0, bop0, r0) \<or>
      (b0 < b \<and> legal slide before bop \<and> estimate slide ag before bop = b \<and>
       r = snd (slide before bop) \<and>
       (\<exists>pre post. ops = pre @ bop # post \<and>
          (\<forall>op\<in>set pre. legal slide before op \<longrightarrow> estimate slide ag before op < b))))"
proof (induction ops arbitrary: b0 bop0 r0)
  case Nil
  then show ?case by simp
next
  case (Cons x xs)
  let ?L = "legal slide before" and ?E = "estimate slide ag before"
  show ?case
  proof (cases "?L x \<and> ?E x > b0")
    case True
    then have step: "fold (try_op slide ag before) xs (?E x, x, snd (slide before x)) = (b, bop, r)"
      using Cons.prems by (simp add: try_op_eq)
    note ih = Cons.IH [OF step]
    from ih have le: "?E x \<le> b" and all: "\<forall>op\<in>set xs. ?L op \<longrightarrow> ?E op \<le> b" by simp_all
    from ih consider
        (same) "(b, bop, r) = (?E x, x, snd (slide before x))"
      | (later) "?E x < b" "?L bop" "?E bop = b" "r = snd (slide before bop)"
          "\<exists>pre post. xs = pre @ bop # post \<and> (\<forall>op\<in>set pre. ?L op \<longrightarrow> ?E op < b)"
      by blast
    then show ?thesis
    proof cases
      case same
      then have "x # xs = [] @ bop # xs" by simp
      then have "\<exists>pre post. x # xs = pre @ bop # post \<and> (\<forall>op\<in>set pre. ?L op \<longrightarrow> ?E op < b)"
        by (intro exI [of _ "[]"] exI [of _ xs]) simp
      then show ?thesis using same True le all by auto
    next
      case later
      then obtain pre post where p: "xs = pre @ bop # post" "\<forall>op\<in>set pre. ?L op \<longrightarrow> ?E op < b"
        by blast
      have "x # xs = (x # pre) @ bop # post \<and> (\<forall>op\<in>set (x # pre). ?L op \<longrightarrow> ?E op < b)"
        using p later(1) by simp
      then have "\<exists>pre post. x # xs = pre @ bop # post \<and> (\<forall>op\<in>set pre. ?L op \<longrightarrow> ?E op < b)"
        by blast
      then show ?thesis using later True le all by auto
    qed
  next
    case False
    then have "try_op slide ag before x (b0, bop0, r0) = (b0, bop0, r0)"
      by (auto simp: try_op_eq)
    then have step: "fold (try_op slide ag before) xs (b0, bop0, r0) = (b, bop, r)"
      using Cons.prems by simp
    note ih = Cons.IH [OF step]
    from ih have le: "b0 \<le> b" and all: "\<forall>op\<in>set xs. ?L op \<longrightarrow> ?E op \<le> b" by simp_all
    have x: "?L x \<longrightarrow> ?E x \<le> b" using False le by auto
    from ih consider
        (same) "(b, bop, r) = (b0, bop0, r0)"
      | (later) "b0 < b" "?L bop" "?E bop = b" "r = snd (slide before bop)"
          "\<exists>pre post. xs = pre @ bop # post \<and> (\<forall>op\<in>set pre. ?L op \<longrightarrow> ?E op < b)"
      by blast
    then show ?thesis
    proof cases
      case same
      then show ?thesis using le all x by auto
    next
      case later
      then obtain pre post where p: "xs = pre @ bop # post" "\<forall>op\<in>set pre. ?L op \<longrightarrow> ?E op < b"
        by blast
      have "?L x \<longrightarrow> ?E x < b" using False later(1) by auto
      then have "x # xs = (x # pre) @ bop # post \<and> (\<forall>op\<in>set (x # pre). ?L op \<longrightarrow> ?E op < b)"
        using p by simp
      then have "\<exists>pre post. x # xs = pre @ bop # post \<and> (\<forall>op\<in>set pre. ?L op \<longrightarrow> ?E op < b)"
        by blast
      then show ?thesis using later le all x by auto
    qed
  qed
qed

lemma take_action_none_above:
  assumes "\<forall>op\<in>set (op_code ag). legal slide before op \<longrightarrow> estimate slide ag before op \<le> -1"
  shows "take_action slide before ag = (NoAction, ag\<lparr>history := (before, 0) # history ag\<rparr>)"
proof -
  have "fold (try_op slide ag before) ops (-1, -1, 0) = (-1, -1, 0)"
    if "\<forall>op\<in>set ops. legal slide before op \<longrightarrow> estimate slide ag before op \<le> -1" for ops
    using that by (induction ops) (auto simp: try_op_eq)
  from this [OF assms] show ?thesis by (simp add: take_action_def)
qed

lemma take_action_best:
  assumes some: "\<exists>op\<in>set (op_code ag). legal slide before op \<and> estimate slide ag before op > -1"
    and ops: "-1 \<notin> set (op_code ag)"
  shows "\<exists>op pre post.
           take_action slide before ag =
             (Slide op, ag\<lparr>history := (before, snd (slide before op)) # history ag\<rparr>) \<and>
           legal slide before op \<and>
           (\<forall>op'\<in>set (op_code ag). legal slide before op' \<longrightarrow>
               estimate slide ag before op' \<le> estimate slide ag before op) \<and>
           op_code ag = pre @ op # post \<and>
           (\<forall>op'\<in>set pre. legal slide before op' \<longrightarrow>
               estimate slide ag before op' < estimate slide ag before op)"
proof -
  obtain b bop r where f: "fold (try_op slide ag before) (op_code ag) (-1, -1, 0) = (b, bop, r)"
    by (cases "fold (try_op slide ag before) (op_code ag) (-1, -1, 0)") auto
  note s = loop_spec [OF f]
  from some s have "b > -1" by force
  with s obtain pre post where
    bop: "legal slide before bop" "estimate slide ag before bop = b" "r = snd (slide before bop)"
       "op_code ag = pre @ bop # post"
       "\<forall>op\<in>set pre. legal slide before op \<longrightarrow> estimate slide ag before op < b"
    by auto
  have "bop \<in> set (op_code ag)" using bop(4) by simp
  then have "bop \<noteq> -1" using ops by auto
  then have "take_action slide before ag =
      (Slide bop, ag\<lparr>history := (before, snd (slide before bop)) # history ag\<rparr>)"
    using f bop(3) by (simp add: take_action_def)
  then show ?thesis using bop s by blast
qed

lemma fold_plus_sum_list:
  "fold (\<lambda>x (s::real). s + h x) xs acc = acc + sum_list (map h xs)"
  by (induction xs arbitrary: acc) simp_all

lemma fold_nested_sum_list:
  "fold (\<lambda>i (s::real). fold (\<lambda>x s. s + h i x) (g i) s) is acc
     = acc + sum_list (map (\<lambda>i. sum_list (map (h i) (g i))) is)"
  by (induction "is" arbitrary: acc) (simp_all add: fold_plus_sum_list)

lemma get_value_sum:
  "get_value ag b =
     (\<Sum>i\<leftarrow>[0..<length (features ag)]. \<Sum>f\<leftarrow>features ag ! i. net ag ! i ! feature_index f b)"
  by (simp add: get_value_def fold_nested_sum_list)

lemma configured_shape:
  "orbit \<in> set (map create_iso_feature feats) \<Longrightarrow> f \<in> set orbit \<Longrightarrow>
   valid_feature f \<and> length f = 6 \<and> -1 \<notin> set f"
  unfolding configured_features by (auto simp: valid_feature_def valid_position_def)

lemma get_value_const:
  assumes fs: "features ag = map create_iso_feature feats"
    and n: "net ag = replicate 4 (replicate (16 ^ 6) w)"
    and b: "list_all (\<lambda>i. b i < 16) [0..<16]"
  shows "get_value ag b = 28 * w"
proof -
  have rd: "net ag ! i ! feature_index f b = w"
    if "i < 4" "f \<in> set (features ag ! i)" for i f
  proof -
    have "length (features ag) = 4" using fs by (simp add: feats_def)
    then have "features ag ! i \<in> set (features ag)" using that(1) by (intro nth_mem) simp
    then have "features ag ! i \<in> set (map create_iso_feature feats)" using fs by simp
    then have "valid_feature f \<and> length f = 6 \<and> -1 \<notin> set f"
      using that(2) configured_shape by blast
    then have "feature_index f b < 16 ^ 6"
      using no_hint_index_in_range [OF b, of f] by simp
    then show ?thesis using that(1) n by simp
  qed
  have inner: "(\<Sum>f\<leftarrow>features ag ! i. net ag ! i ! feature_index f b)
                 = real (length (features ag ! i)) * w" if "i < 4" for i
  proof -
    have "map (\<lambda>f. net ag ! i ! feature_index f b) (features ag ! i)
            = map (\<lambda>f. w) (features ag ! i)"
      using rd [OF that] by (intro map_cong) simp_all
    then have "(\<Sum>f\<leftarrow>features ag ! i. net ag ! i ! feature_index f b)
                 = (\<Sum>f\<leftarrow>features ag ! i. w)"
      by (rule arg_cong)
    also have "\<dots> = real (length (features ag ! i)) * w" by (simp add: sum_list_triv)
    finally show ?thesis .
  qed
  have len: "length (features ag) = 4" using fs by (simp add: feats_def)
  have "get_value ag b = (\<Sum>i\<leftarrow>[0..<4]. real (length (features ag ! i)) * w)"
    unfolding get_value_sum len using inner by (intro arg_cong [of _ _ sum_list] map_cong) simp_all
  also have "\<dots> = 28 * w"
    by (simp add: fs configured_features upt_rec [of _ "numeral n" for n])
  finally show ?thesis .
qed

subsection \<open>Rotation and reflection of positions\<close>

lemma position_cases:
  "0 \<le> i \<Longrightarrow> i < 16 \<Longrightarrow>
   i \<in> {0, 1, 2, 3, 4, 5, 6, 7, 8, 9, 10, 11, 12, 13, 14, 15::int}"
  by simp presburger

lemma tables_on_board:
  assumes "0 \<le> i" "i < 16"
  shows "0 \<le> rot i \<and> rot i < 16 \<and> 0 \<le> refl_pos i \<and> refl_pos i < 16"
  using position_cases [OF assms]
  by (auto simp: rot_def refl_pos_def right_rotation_matching_def reflection_matching_def)

lemma rot4: "0 \<le> i \<Longrightarrow> i < 16 \<Longrightarrow> rot (rot (rot (rot i))) = i"
  using position_cases [of i]
  by (auto simp: rot_def right_rotation_matching_def)

lemma refl2: "0 \<le> i \<Longrightarrow> i < 16 \<Longrightarrow> refl_pos (refl_pos i) = i"
  using position_cases [of i]
  by (auto simp: refl_pos_def reflection_matching_def)

lemma refl_rot: "0 \<le> i \<Longrightarrow> i < 16 \<Longrightarrow> refl_pos (rot i) = rot (rot (rot (refl_pos i)))"
  using position_cases [of i]
  by (auto simp: rot_def refl_pos_def right_rotation_matching_def reflection_matching_def)

lemma fold_skip_hint:
  "fold (\<lambda>i vec. if i = -1 then vec else vec @ [h i]) xs acc
     = acc @ map h (filter (\<lambda>i. i \<noteq> -1) xs)"
  by (induction xs arbitrary: acc) simp_all

lemma left_rotate_map: "left_rotate feat = map rot (real_positions feat)"
  by (simp add: left_rotate_def real_positions_def fold_skip_hint rot_def [abs_def])

lemma reflection_map: "reflection feat = map refl_pos (real_positions feat)"
  by (simp add: reflection_def real_positions_def fold_skip_hint refl_pos_def [abs_def])

lemma on_board_real_positions: "valid_feature feat \<Longrightarrow> on_board (real_positions feat)"
  by (auto simp: valid_feature_def valid_position_def on_board_def real_positions_def list_all_iff)

lemma real_positions_on_board: "on_board p \<Longrightarrow> real_positions p = p"
  by (induction p) (auto simp: on_board_def real_positions_def)

lemma on_board_map:
  "on_board p \<Longrightarrow> on_board (map rot p) \<and> on_board (map refl_pos p)"
  using tables_on_board by (auto simp: on_board_def list_all_iff)

lemma left_rotate_on_board: "on_board p \<Longrightarrow> left_rotate p = map rot p \<and> on_board (left_rotate p)"
  by (simp add: left_rotate_map real_positions_on_board on_board_map)

lemma reflection_on_board: "on_board p \<Longrightarrow> reflection p = map refl_pos p \<and> on_board (reflection p)"
  by (simp add: reflection_map real_positions_on_board on_board_map)

lemma map_rot4: "on_board p \<Longrightarrow> map rot (map rot (map rot (map rot p))) = p"
  by (induction p) (auto simp: on_board_def rot4)

lemma map_refl2: "on_board p \<Longrightarrow> map refl_pos (map refl_pos p) = p"
  by (induction p) (auto simp: on_board_def refl2)

lemma map_refl_rot:
  "on_board p \<Longrightarrow> map refl_pos (map rot p) = map rot (map rot (map rot (map refl_pos p)))"
  by (induction p) (auto simp: on_board_def refl_rot)

lemma generated_eq:
  "generated feat =
     (let a1 = left_rotate feat; a2 = left_rotate a1; a3 = left_rotate a2;
          a4 = left_rotate a3; a5 = left_rotate a4;
          b0 = reflection a5; b1 = left_rotate b0; b2 = left_rotate b1; b3 = left_rotate b2
      in map (\<lambda>t. (hash t, t)) [a1, a2, a3, a4, a5, b0, b1, b2, b3])"
  by (simp add: generated_def eval_nat_numeral Let_def)

lemma generated_maps:
  assumes "valid_feature feat"
  shows "generated feat = map (\<lambda>g. (hash (map g (real_positions feat)), map g (real_positions feat))) variant_maps"
proof -
  let ?p = "real_positions feat"
  have p: "on_board ?p" using assms by (rule on_board_real_positions)
  have a1: "left_rotate feat = map rot ?p" by (rule left_rotate_map)
  have o1: "on_board (map rot ?p)" using p on_board_map by blast
  have o2: "on_board (map rot (map rot ?p))" using o1 on_board_map by blast
  have o3: "on_board (map rot (map rot (map rot ?p)))" using o2 on_board_map by blast
  have o4: "on_board (map rot (map rot (map rot (map rot ?p))))" using o3 on_board_map by blast
  have o5: "on_board (map rot (map rot (map rot (map rot (map rot ?p)))))" using o4 on_board_map by blast
  have q0: "on_board (map refl_pos (map rot (map rot (map rot (map rot (map rot ?p))))))"
    using o5 on_board_map by blast
  have q1: "on_board (map rot (map refl_pos (map rot (map rot (map rot (map rot (map rot ?p)))))))"
    using q0 on_board_map by blast
  have q2: "on_board (map rot (map rot (map refl_pos (map rot (map rot (map rot (map rot (map rot ?p))))))))"
    using q1 on_board_map by blast
  show ?thesis
    unfolding generated_eq Let_def a1
    using o1 o2 o3 o4 o5 q0 q1 q2
    by (simp add: left_rotate_on_board reflection_on_board variant_maps_def eval_nat_numeral comp_def)
qed

lemma rot_bounds [simp]:
  "0 \<le> i \<Longrightarrow> i < 16 \<Longrightarrow> 0 \<le> rot i"
  "0 \<le> i \<Longrightarrow> i < 16 \<Longrightarrow> rot i < 16"
  "0 \<le> i \<Longrightarrow> i < 16 \<Longrightarrow> 0 \<le> refl_pos i"
  "0 \<le> i \<Longrightarrow> i < 16 \<Longrightarrow> refl_pos i < 16"
  using tables_on_board [of i] by simp_all

lemma variant_on_board:
  "on_board p \<Longrightarrow> g \<in> set variant_maps \<Longrightarrow> on_board (map g p)"
  unfolding variant_maps_def
  by (auto simp: eval_nat_numeral on_board_def list_all_iff)

lemma set_insert_desc: "set (insert_desc x xs) = insert x (set xs)"
  by (induction xs) auto

lemma set_fold_insert_desc: "set (fold insert_desc xs acc) = set xs \<union> set acc"
  by (induction xs arbitrary: acc) (auto simp: set_insert_desc)

lemma set_sort_desc: "set (sort_desc xs) = set xs"
  by (simp add: sort_desc_def set_fold_insert_desc)

lemma set_unique_subset: "set (unique xs) \<subseteq> set xs"
  by (induction xs rule: unique.induct) auto

lemma create_iso_feature_members:
  assumes "v \<in> set (create_iso_feature feat)"
  shows "\<exists>x\<in>set (generated feat). v = (if -1 \<in> set feat then snd x @ [-1] else snd x)"
proof -
  have "v \<in> (\<lambda>f. if -1 \<in> set feat then snd f @ [-1] else snd f) `
               set (unique (sort_desc (generated feat)))"
    using assms by (simp add: create_iso_feature_def Let_def)
  then obtain x where x: "x \<in> set (unique (sort_desc (generated feat)))"
      and v: "v = (if -1 \<in> set feat then snd x @ [-1] else snd x)"
    by (rule imageE)
  from x have "x \<in> set (generated feat)"
    using set_unique_subset [of "sort_desc (generated feat)"] by (auto simp: set_sort_desc)
  with v show ?thesis by blast
qed

lemma create_iso_feature_variant:
  assumes "valid_feature feat" and "v \<in> set (create_iso_feature feat)"
  shows "\<exists>g\<in>set variant_maps.
           v = (if -1 \<in> set feat then map g (real_positions feat) @ [-1]
                else map g (real_positions feat))"
proof -
  from create_iso_feature_members [OF assms(2)] obtain x where
    x: "x \<in> set (generated feat)" and v: "v = (if -1 \<in> set feat then snd x @ [-1] else snd x)"
    by blast
  from x obtain g where "g \<in> set variant_maps" "snd x = map g (real_positions feat)"
    unfolding generated_maps [OF assms(1)] by auto
  with v show ?thesis by auto
qed

lemma hint_last_kept:
  assumes "valid_feature (p @ [-1])" and "-1 \<notin> set p"
    and "v \<in> set (create_iso_feature (p @ [-1]))"
  shows "hint_slots_kept (p @ [-1]) v"
proof -
  from create_iso_feature_variant [OF assms(1,3)] obtain g where
    g: "g \<in> set variant_maps" and v: "v = map g (real_positions (p @ [-1])) @ [-1]"
    by auto
  have rp: "real_positions (p @ [-1]) = p"
    using assms(2) by (induction p) (auto simp: real_positions_def)
  have "on_board p" using on_board_real_positions [OF assms(1)] rp by simp
  then have "on_board (map g p)" using g by (rule variant_on_board)
  then have "\<forall>q\<in>set (map g p). q \<noteq> -1" by (auto simp: on_board_def list_all_iff)
  then have "list_all2 (\<lambda>p q. (p = -1) = (q = -1)) p (map g p)"
    using assms(2) by (auto simp: list_all2_conv_all_nth dest: nth_mem)
  then show ?thesis
    unfolding hint_slots_kept_def v rp by (simp add: list_all2_appendI)
qed

subsection \<open>The hash is the set of positions\<close>

lemma hash_fold:
  "fold (\<lambda>k (i, flag). if k = -1 then (i, True) else (i OR push_bit (nat k) 1, flag)) p (i, flag)
     = (mask_of p i, flag \<or> -1 \<in> set p)"
  by (induction p arbitrary: i flag) (auto simp: mask_of_def)

lemma hash_mask: "hash p = (if -1 \<in> set p then - mask_of p 0 else mask_of p 0)"
  by (simp add: hash_def hash_fold)

lemma mask_of_real_positions: "mask_of (real_positions p) acc = mask_of p acc"
  by (induction p arbitrary: acc) (simp_all add: mask_of_def real_positions_def)

lemma bit_mask_of:
  "on_board p \<Longrightarrow> bit (mask_of p acc) n \<longleftrightarrow> bit acc n \<or> int n \<in> set p"
proof (induction p arbitrary: acc)
  case Nil
  then show ?case by (simp add: mask_of_def)
next
  case (Cons k p)
  then have k: "0 \<le> k" "k \<noteq> -1" and p: "on_board p" by (auto simp: on_board_def)
  have "mask_of (k # p) acc = mask_of p (acc OR push_bit (nat k) 1)"
    using k by (simp add: mask_of_def)
  moreover have "bit (push_bit (nat k) (1::int)) n \<longleftrightarrow> int n = k"
    using k by (auto simp: push_bit_eq_mult bit_exp_iff)
  ultimately show ?case using Cons.IH [OF p] by (auto simp: bit_or_iff)
qed

lemma mask_of_nonneg: "on_board p \<Longrightarrow> 0 \<le> mask_of p 0"
proof -
  assume "on_board p"
  then have "n < 16" if "bit (mask_of p 0) n" for n
    using that by (auto simp: bit_mask_of on_board_def list_all_iff)
  then have "take_bit 16 (mask_of p 0) = mask_of p 0"
    by (intro bit_eqI) (auto simp: bit_take_bit_iff)
  moreover have "0 \<le> take_bit 16 (mask_of p 0)" by simp
  ultimately show ?thesis by simp
qed

lemma mask_of_eq_iff:
  "on_board p \<Longrightarrow> on_board q \<Longrightarrow> mask_of p 0 = mask_of q 0 \<longleftrightarrow> set p = set q"
proof
  assume p: "on_board p" and q: "on_board q" and e: "mask_of p 0 = mask_of q 0"
  have "x \<in> set p \<longleftrightarrow> x \<in> set q" for x
  proof (cases "0 \<le> x")
    case True
    then have "x = int (nat x)" by simp
    then show ?thesis
      using bit_mask_of [OF p, of 0 "nat x"] bit_mask_of [OF q, of 0 "nat x"] e by simp
  next
    case False
    then show ?thesis using p q by (auto simp: on_board_def list_all_iff)
  qed
  then show "set p = set q" by blast
next
  assume p: "on_board p" and q: "on_board q" and e: "set p = set q"
  show "mask_of p 0 = mask_of q 0"
    by (rule bit_eqI) (simp add: bit_mask_of [OF p] bit_mask_of [OF q] e)
qed

lemma hash_on_board: "on_board p \<Longrightarrow> hash p = mask_of p 0 \<and> 0 \<le> hash p"
  by (auto simp: hash_mask mask_of_nonneg on_board_def list_all_iff)

lemma hash_eq_iff:
  "on_board p \<Longrightarrow> on_board q \<Longrightarrow> hash p = hash q \<longleftrightarrow> set p = set q"
  by (simp add: hash_on_board mask_of_eq_iff)

lemma hash_append_hint: "on_board p \<Longrightarrow> hash (p @ [-1]) = - hash p"
proof -
  assume p: "on_board p"
  have "mask_of (p @ [-1]) 0 = mask_of p 0" by (simp add: mask_of_def)
  then show ?thesis using hash_on_board [OF p] by (simp add: hash_mask)
qed

subsection \<open>Sorting and deduplication\<close>

lemma sorted_insert_desc:
  "sorted_wrt (\<lambda>a b. fst a \<ge> fst b) xs \<Longrightarrow> sorted_wrt (\<lambda>a b. fst a \<ge> fst b) (insert_desc x xs)"
  by (induction xs) (auto simp: set_insert_desc)

lemma sorted_fold_insert_desc:
  "sorted_wrt (\<lambda>a b. fst a \<ge> fst b) acc \<Longrightarrow>
   sorted_wrt (\<lambda>a b. fst a \<ge> fst b) (fold insert_desc xs acc)"
  by (induction xs arbitrary: acc) (simp_all add: sorted_insert_desc)

lemma sorted_sort_desc: "sorted_wrt (\<lambda>a b. fst a \<ge> fst b) (sort_desc xs)"
  by (simp add: sort_desc_def sorted_fold_insert_desc)

lemma pair_eq_consistent:
  "fst x = hash (snd x) \<Longrightarrow> fst y = hash (snd y) \<Longrightarrow> pair_eq x y \<longleftrightarrow> fst x = fst y"
  by (auto simp: pair_eq_def feature_eq_def)

lemma unique_sorted:
  "\<forall>x\<in>set xs. fst x = hash (snd x) \<Longrightarrow> sorted_wrt (\<lambda>a b. fst a \<ge> fst b) xs \<Longrightarrow>
   fst ` set (unique xs) = fst ` set xs \<and> sorted_wrt (\<lambda>a b. fst a > fst b) (unique xs)"
proof (induction xs rule: unique.induct)
  case 1
  then show ?case by simp
next
  case (2 x)
  then show ?case by simp
next
  case (3 x y ys)
  have pe: "pair_eq x y \<longleftrightarrow> fst x = fst y"
    using 3(3) by (intro pair_eq_consistent) simp_all
  show ?case
  proof (cases "fst x = fst y")
    case True
    have "fst ` set (unique (x # ys)) = fst ` set (x # ys) \<and>
          sorted_wrt (\<lambda>a b. fst a > fst b) (unique (x # ys))"
      using 3(1) 3(3,4) True pe by simp
    then show ?thesis using True pe by auto
  next
    case False
    have ih: "fst ` set (unique (y # ys)) = fst ` set (y # ys) \<and>
          sorted_wrt (\<lambda>a b. fst a > fst b) (unique (y # ys))"
      using 3(2) 3(3,4) False pe by simp
    have "fst x > fst y" using 3(4) False by auto
    moreover have "\<forall>z\<in>set (y # ys). fst y \<ge> fst z" using 3(4) by auto
    ultimately have "\<forall>z\<in>set (unique (y # ys)). fst x > fst z"
      using set_unique_subset [of "y # ys"] by fastforce
    then show ?thesis using ih False pe by auto
  qed
qed

lemma strict_sorted_distinct:
  fixes xs :: "(int \<times> feature) list"
  shows "sorted_wrt (\<lambda>a b. fst a > fst b) xs \<Longrightarrow> distinct (map fst xs)"
  by (induction xs) fastforce+

lemma length_unique_sort_desc:
  assumes "\<forall>x\<in>set xs. fst x = hash (snd x)"
  shows "length (unique (sort_desc xs)) = card (fst ` set xs)"
proof -
  let ?u = "unique (sort_desc xs)"
  have u: "fst ` set ?u = fst ` set (sort_desc xs) \<and> sorted_wrt (\<lambda>a b. fst a > fst b) ?u"
    using assms by (intro unique_sorted) (simp_all add: set_sort_desc sorted_sort_desc)
  then have "distinct (map fst ?u)" by (simp add: strict_sorted_distinct)
  then have "card (set (map fst ?u)) = length (map fst ?u)" by (rule distinct_card)
  then show ?thesis using u by (simp add: set_sort_desc)
qed

subsection \<open>The orbit of a set of cells\<close>

lemma orbit_card_abstract:
  fixes r m :: "'a \<Rightarrow> 'a"
  assumes r: "r a0 = a1" "r a1 = a2" "r a2 = a3" "r a3 = a0"
             "r b0 = b1" "r b1 = b2" "r b2 = b3" "r b3 = b0"
      and m: "m a1 = b0" "m a2 = b3" "m a3 = b2" "m a0 = b1"
             "m b0 = a1" "m b3 = a2" "m b2 = a3" "m b1 = a0"
  shows "card {a1, a2, a3, a0, b0, b1, b2, b3} \<in> {1, 2, 4, 8}"
proof (cases "a0 = a1")
  case True
  have "a2 = a0" using True r(1,2) by simp
  moreover have "a3 = a0" using True r(1,2,3) by simp
  moreover have "b1 = b0" using True m(1,4) by simp
  moreover have "b3 = b0" using \<open>a2 = a0\<close> True m(1,2) by simp
  moreover have "b2 = b0" using \<open>a3 = a0\<close> True m(1,3) by simp
  ultimately have "{a1, a2, a3, a0, b0, b1, b2, b3} = {a0, b0}" using True by auto
  then show ?thesis by (cases "a0 = b0") simp_all
next
  case ne1: False
  show ?thesis
  proof (cases "a0 = a2")
    case True
    have a3: "a3 = a1" using True r(1,3) by simp
    have b3: "b3 = b1" using True m(2,4) by simp
    have b2: "b2 = b0" using a3 m(1,3) by simp
    have nb: "b0 \<noteq> b1"
    proof
      assume "b0 = b1"
      then have "m b0 = m b1" by simp
      then show False using m(5,8) ne1 by simp
    qed
    have e: "{a1, a2, a3, a0, b0, b1, b2, b3} = {a0, a1, b0, b1}"
      using True a3 b3 b2 by auto
    have d1: "a0 = b0 \<Longrightarrow> a1 = b1" using r(1,5) by simp
    have d2: "a1 = b1 \<Longrightarrow> a0 = b0" using r(2,6) True b2 by simp
    have d3: "a0 = b1 \<Longrightarrow> a1 = b0" using r(1,6) b2 by simp
    have d4: "a1 = b0 \<Longrightarrow> a0 = b1" using r(2,5) True by simp
    consider (x) "a0 = b0" | (y) "a0 = b1" | (z) "a0 \<noteq> b0" "a0 \<noteq> b1" by blast
    then show ?thesis
    proof cases
      case x
      then have "{a0, a1, b0, b1} = {a0, a1}" using d1 by auto
      then show ?thesis using e ne1 by simp
    next
      case y
      then have "{a0, a1, b0, b1} = {a0, a1}" using d3 by auto
      then show ?thesis using e ne1 by simp
    next
      case z
      then have "a1 \<noteq> b1" "a1 \<noteq> b0" using d2 d4 by blast+
      then have "distinct [a0, a1, b0, b1]" using z ne1 nb by simp
      then have "card (set [a0, a1, b0, b1]) = 4" by (subst distinct_card) simp_all
      then show ?thesis using e by simp
    qed
  next
    case ne2: False
    have n13: "a1 \<noteq> a3"
    proof
      assume "a1 = a3"
      then have "r a1 = r a3" by simp
      then show False using r(2,4) ne2 by simp
    qed
    have n12: "a1 \<noteq> a2"
    proof
      assume h: "a1 = a2"
      then have "a2 = a3" using r(2,3) by simp
      then show False using h n13 by simp
    qed
    have n23: "a2 \<noteq> a3"
    proof
      assume h: "a2 = a3"
      then have "a3 = a0" using r(3,4) by simp
      then show False using h ne2 by simp
    qed
    have n03: "a0 \<noteq> a3"
    proof
      assume h: "a0 = a3"
      then have "a1 = a0" using r(1,4) by simp
      then show False using ne1 by simp
    qed
    have da: "distinct [a0, a1, a2, a3]" using ne1 ne2 n03 n12 n13 n23 by simp
    have mm: "m (m z) = z" if "z \<in> {a0, a1, a2, a3}" for z using that m by auto
    have inj: "x = y" if "m x = m y" "x \<in> {a0, a1, a2, a3}" "y \<in> {a0, a1, a2, a3}" for x y
    proof -
      have "m (m x) = m (m y)" using that(1) by simp
      then show "x = y" using mm [OF that(2)] mm [OF that(3)] by simp
    qed
    have "b1 \<noteq> b0" using inj [of a0 a1] m(1,4) ne1 by auto
    moreover have "b1 \<noteq> b3" using inj [of a0 a2] m(2,4) ne2 by auto
    moreover have "b1 \<noteq> b2" using inj [of a0 a3] m(3,4) n03 by auto
    moreover have "b0 \<noteq> b3" using inj [of a1 a2] m(1,2) n12 by auto
    moreover have "b0 \<noteq> b2" using inj [of a1 a3] m(1,3) n13 by auto
    moreover have "b3 \<noteq> b2" using inj [of a2 a3] m(2,3) n23 by auto
    ultimately have db: "distinct [b1, b0, b3, b2]" by simp
    show ?thesis
    proof (cases "{a0, a1, a2, a3} \<inter> {b0, b1, b2, b3} = {}")
      case True
      then have "distinct [a1, a2, a3, a0, b0, b1, b2, b3]" using da db by auto
      then have "card (set [a1, a2, a3, a0, b0, b1, b2, b3]) = 8"
        by (subst distinct_card) simp_all
      then show ?thesis by simp
    next
      case False
      have cl: "x \<in> {a0, a1, a2, a3} \<Longrightarrow> r x \<in> {a0, a1, a2, a3}" for x using r by auto
      have tr: "y \<in> {b0, b1, b2, b3} \<Longrightarrow> y \<in> {a0, a1, a2, a3} \<Longrightarrow> b0 \<in> {a0, a1, a2, a3}" for y
      proof -
        assume y: "y \<in> {b0, b1, b2, b3}" and a: "y \<in> {a0, a1, a2, a3}"
        have 1: "r y \<in> {a0, a1, a2, a3}" using cl a by blast
        have 2: "r (r y) \<in> {a0, a1, a2, a3}" using cl 1 by blast
        have 3: "r (r (r y)) \<in> {a0, a1, a2, a3}" using cl 2 by blast
        from y consider "y = b0" | "y = b1" | "y = b2" | "y = b3" by blast
        then show ?thesis
        proof cases
          case 1 then show ?thesis using a by simp
        next
          case 2 then have "r (r (r y)) = b0" using r by simp
          then show ?thesis using 3 by simp
        next
          case 3 then have "r (r y) = b0" using r by simp
          then show ?thesis using 2 by simp
        next
          case 4 then have "r y = b0" using r by simp
          then show ?thesis using 1 by simp
        qed
      qed
      from False obtain y where "y \<in> {b0, b1, b2, b3}" "y \<in> {a0, a1, a2, a3}" by blast
      then have b0: "b0 \<in> {a0, a1, a2, a3}" by (rule tr)
      then have b1: "b1 \<in> {a0, a1, a2, a3}" using cl [of b0] r(5) by simp
      then have b2: "b2 \<in> {a0, a1, a2, a3}" using cl [of b1] r(6) by simp
      then have b3: "b3 \<in> {a0, a1, a2, a3}" using cl [of b2] r(7) by simp
      have "{a1, a2, a3, a0, b0, b1, b2, b3} = set [a0, a1, a2, a3]"
        using b0 b1 b2 b3 by auto
      then have "card {a1, a2, a3, a0, b0, b1, b2, b3} = 4"
        using da by (simp only: distinct_card) simp
      then show ?thesis by simp
    qed
  qed
qed

lemma card_image_cong_list:
  "(\<And>x y. x \<in> set xs \<Longrightarrow> y \<in> set xs \<Longrightarrow> (f x = f y) = (g x = g y)) \<Longrightarrow>
   card (f ` set xs) = card (g ` set xs)"
proof (induction xs)
  case Nil
  then show ?case by simp
next
  case (Cons x xs)
  have ih: "card (f ` set xs) = card (g ` set xs)"
    using Cons.prems by (intro Cons.IH) simp_all
  have "f x \<in> f ` set xs \<longleftrightarrow> g x \<in> g ` set xs"
  proof
    assume "f x \<in> f ` set xs"
    then obtain y where "y \<in> set xs" "f x = f y" by blast
    then have "g x = g y" using Cons.prems [of x y] by simp
    then show "g x \<in> g ` set xs" using \<open>y \<in> set xs\<close> by blast
  next
    assume "g x \<in> g ` set xs"
    then obtain y where "y \<in> set xs" "g x = g y" by blast
    then have "f x = f y" using Cons.prems [of x y] by simp
    then show "f x \<in> f ` set xs" using \<open>y \<in> set xs\<close> by blast
  qed
  then show ?case using ih by (simp add: card_insert_if)
qed

lemma in_board_image: "in_board X \<Longrightarrow> in_board (rot ` X) \<and> in_board (refl_pos ` X)"
  by (auto simp: in_board_def)

lemma image_rot4: "in_board X \<Longrightarrow> rot ` rot ` rot ` rot ` X = X"
proof -
  assume "in_board X"
  then have "(\<lambda>x. rot (rot (rot (rot x)))) ` X = (\<lambda>x. x) ` X"
    by (intro image_cong) (auto simp: in_board_def rot4)
  then show ?thesis by (simp add: image_image)
qed

lemma image_refl2: "in_board X \<Longrightarrow> refl_pos ` refl_pos ` X = X"
proof -
  assume "in_board X"
  then have "(\<lambda>x. refl_pos (refl_pos x)) ` X = (\<lambda>x. x) ` X"
    by (intro image_cong) (auto simp: in_board_def refl2)
  then show ?thesis by (simp add: image_image)
qed

lemma image_refl_rot:
  "in_board X \<Longrightarrow> refl_pos ` rot ` X = rot ` rot ` rot ` refl_pos ` X"
proof -
  assume "in_board X"
  then have "(\<lambda>x. refl_pos (rot x)) ` X = (\<lambda>x. rot (rot (rot (refl_pos x)))) ` X"
    by (intro image_cong) (auto simp: in_board_def refl_rot)
  then show ?thesis by (simp add: image_image)
qed

lemma orbit_sets_card:
  assumes S: "in_board S"
  shows "card {rot ` S, rot ` rot ` S, rot ` rot ` rot ` S, S,
               refl_pos ` rot ` S, rot ` refl_pos ` rot ` S,
               rot ` rot ` refl_pos ` rot ` S, rot ` rot ` rot ` refl_pos ` rot ` S}
         \<in> {1, 2, 4, 8}"
proof -
  let ?r = "\<lambda>X. rot ` X" and ?m = "\<lambda>X. refl_pos ` X"
  let ?a1 = "rot ` S"
  let ?a2 = "rot ` ?a1"
  let ?a3 = "rot ` ?a2"
  let ?b0 = "refl_pos ` ?a1"
  let ?b1 = "rot ` ?b0"
  let ?b2 = "rot ` ?b1"
  let ?b3 = "rot ` ?b2"
  have i1: "in_board ?a1" using S in_board_image by blast
  have i2: "in_board ?a2" using i1 in_board_image by blast
  have i3: "in_board ?a3" using i2 in_board_image by blast
  have j0: "in_board ?b0" using i1 in_board_image by blast
  have j1: "in_board ?b1" using j0 in_board_image by blast
  have j2: "in_board ?b2" using j1 in_board_image by blast
  have j3: "in_board ?b3" using j2 in_board_image by blast
  have r4: "?r ?a3 = S" using S by (rule image_rot4)
  have r8: "?r ?b3 = ?b0" using j0 by (rule image_rot4)
  have m1: "?m ?a1 = ?b0" by simp
  have m2: "?m ?a2 = ?b3" using i1 by (rule image_refl_rot)
  have m3: "?m ?a3 = ?b2"
  proof -
    have "?m ?a3 = rot ` rot ` rot ` ?m ?a2" using i2 by (rule image_refl_rot)
    also have "\<dots> = rot ` rot ` (rot ` ?b3)" using m2 by simp
    also have "\<dots> = ?b2" using r8 by simp
    finally show ?thesis .
  qed
  have m0: "?m S = ?b1"
  proof -
    have "?m S = ?m (rot ` ?a3)" using r4 by simp
    also have "\<dots> = rot ` rot ` rot ` ?m ?a3" using i3 by (rule image_refl_rot)
    also have "\<dots> = rot ` (rot ` ?b3)" using m3 by simp
    also have "\<dots> = ?b1" using r8 by simp
    finally show ?thesis .
  qed
  have n1: "?m ?b0 = ?a1" using i1 by (rule image_refl2)
  have n3: "?m ?b3 = ?a2" using image_refl2 [OF i2] m2 by simp
  have n2: "?m ?b2 = ?a3" using image_refl2 [OF i3] m3 by simp
  have n0: "?m ?b1 = S" using image_refl2 [OF S] m0 by simp
  show ?thesis
    by (rule orbit_card_abstract [of ?r S ?a1 ?a2 ?a3 ?b0 ?b1 ?b2 ?b3 ?m])
       (rule refl r4 r8 m1 m2 m3 m0 n1 n2 n3 n0)+
qed

lemma generated_consistent:
  "valid_feature feat \<Longrightarrow> \<forall>x\<in>set (generated feat). fst x = hash (snd x)"
  by (auto simp: generated_maps)

lemma length_create_iso_feature:
  "valid_feature feat \<Longrightarrow>
   length (create_iso_feature feat) = card (fst ` set (generated feat))"
  by (simp add: create_iso_feature_def Let_def length_unique_sort_desc generated_consistent)

lemma variant_sets:
  assumes "in_board S"
  shows "(\<lambda>g. g ` S) ` set variant_maps =
     {rot ` S, rot ` rot ` S, rot ` rot ` rot ` S, S,
      refl_pos ` rot ` S, rot ` refl_pos ` rot ` S,
      rot ` rot ` refl_pos ` rot ` S, rot ` rot ` rot ` refl_pos ` rot ` S}"
proof -
  have 4: "(rot ^^ 4) ` S = S"
  proof -
    have "(rot ^^ 4) ` S = (\<lambda>x. rot (rot (rot (rot x)))) ` S"
      by (simp add: eval_nat_numeral comp_def)
    also have "\<dots> = rot ` rot ` rot ` rot ` S" by (simp add: image_image)
    also have "\<dots> = S" using assms by (rule image_rot4)
    finally show ?thesis .
  qed
  have 5: "(rot ^^ 5) ` S = rot ` S"
  proof -
    have "(rot ^^ 5) ` S = rot ` (rot ^^ 4) ` S"
      by (simp add: eval_nat_numeral comp_def image_image)
    then show ?thesis using 4 by simp
  qed
  have "(\<lambda>g. g ` S) ` set variant_maps =
     {rot ` S, (rot ^^ 2) ` S, (rot ^^ 3) ` S, (rot ^^ 4) ` S, (rot ^^ 5) ` S,
      refl_pos ` (rot ^^ 5) ` S, rot ` refl_pos ` (rot ^^ 5) ` S,
      (rot ^^ 2) ` refl_pos ` (rot ^^ 5) ` S, (rot ^^ 3) ` refl_pos ` (rot ^^ 5) ` S}"
    by (simp add: variant_maps_def comp_def image_image)
  also have "\<dots> =
     {rot ` S, (rot ^^ 2) ` S, (rot ^^ 3) ` S, S, rot ` S,
      refl_pos ` rot ` S, rot ` refl_pos ` rot ` S,
      (rot ^^ 2) ` refl_pos ` rot ` S, (rot ^^ 3) ` refl_pos ` rot ` S}"
    by (simp only: 4 5)
  also have "\<dots> =
     {rot ` S, rot ` rot ` S, rot ` rot ` rot ` S, S,
      refl_pos ` rot ` S, rot ` refl_pos ` rot ` S,
      rot ` rot ` refl_pos ` rot ` S, rot ` rot ` rot ` refl_pos ` rot ` S}"
    by (simp add: eval_nat_numeral comp_def image_image insert_commute)
  finally show ?thesis .
qed

lemma orbit_size:
  assumes "valid_feature feat"
  shows "length (create_iso_feature feat) \<in> {1, 2, 4, 8}"
proof -
  let ?p = "real_positions feat"
  let ?L = "map (\<lambda>g. map g ?p) variant_maps"
  have p: "on_board ?p" using assms by (rule on_board_real_positions)
  have S: "in_board (set ?p)" using p by (simp add: in_board_def on_board_def list_all_iff)
  have "fst ` set (generated feat) = hash ` set ?L"
    by (simp add: generated_maps [OF assms] image_image)
  moreover have "card (hash ` set ?L) = card (set ` set ?L)"
  proof (rule card_image_cong_list)
    fix x y assume "x \<in> set ?L" "y \<in> set ?L"
    then have "on_board x" "on_board y" using variant_on_board [OF p] by auto
    then show "(hash x = hash y) = (set x = set y)" by (rule hash_eq_iff)
  qed
  moreover have "set ` set ?L = (\<lambda>g. g ` set ?p) ` set variant_maps"
    by (simp add: image_image)
  ultimately have "length (create_iso_feature feat)
      = card ((\<lambda>g. g ` set ?p) ` set variant_maps)"
    using length_create_iso_feature [OF assms] by simp
  then show ?thesis
    using orbit_sets_card [OF S] by (simp only: variant_sets [OF S])
qed

subsection \<open>Board symmetries and the value\<close>

lemma index_transform_fold:
  "-1 \<notin> set f \<Longrightarrow>
   fold (\<lambda>feat idx. if feat = -1 then push_bit 4 idx OR e else push_bit 4 idx OR (b \<circ> g) (nat feat)) f acc
   = fold (\<lambda>feat idx. if feat = -1 then push_bit 4 idx OR e' else push_bit 4 idx OR b (nat feat))
       (map (\<lambda>p. int (g (nat p))) f) acc"
  by (induction f arbitrary: acc) auto

lemma index_transform:
  "-1 \<notin> set f \<Longrightarrow> feature_index f (b \<circ> g) = feature_index (map (\<lambda>p. int (g (nat p))) f) b"
  unfolding feature_index_def Let_def by (rule index_transform_fold)

lemma cell_eval:
  "map rotate_cell [0..<16] = [12,8,4,0,13,9,5,1,14,10,6,2,15,11,7,3]"
  "map reflect_cell [0..<16] = [15,11,7,3,14,10,6,2,13,9,5,1,12,8,4,0]"
  by (simp_all add: rotate_cell_def reflect_cell_def right_rotation_matching_def
        reflection_matching_def upt_rec [of _ "numeral n" for n])

lemma orbit0_sym:
  fixes h :: "int list \<Rightarrow> real"
  assumes "g \<in> set symmetries"
  shows "(\<Sum>f\<leftarrow>[[15,14,13,12,11,10],[12,13,14,15,8,9],[15,11,7,3,14,10],[3,7,11,15,2,6],
              [12,8,4,0,13,9],[0,4,8,12,1,5],[3,2,1,0,7,6],[0,1,2,3,4,5]].
            h (map (\<lambda>p. int (g (nat p))) f))
       = (\<Sum>f\<leftarrow>[[15,14,13,12,11,10],[12,13,14,15,8,9],[15,11,7,3,14,10],[3,7,11,15,2,6],
              [12,8,4,0,13,9],[0,4,8,12,1,5],[3,2,1,0,7,6],[0,1,2,3,4,5]]. h f)"
  using assms
  by (auto simp: symmetries_def rotations_def reflections_def rotate_cell_def reflect_cell_def
        right_rotation_matching_def reflection_matching_def)

lemma orbit1_sym:
  fixes h :: "int list \<Rightarrow> real"
  assumes "g \<in> set symmetries"
  shows "(\<Sum>f\<leftarrow>[[14,10,6,2,13,9],[13,9,5,1,14,10],[2,6,10,14,1,5],[1,5,9,13,2,6],
              [11,10,9,8,7,6],[8,9,10,11,4,5],[7,6,5,4,11,10],[4,5,6,7,8,9]].
            h (map (\<lambda>p. int (g (nat p))) f))
       = (\<Sum>f\<leftarrow>[[14,10,6,2,13,9],[13,9,5,1,14,10],[2,6,10,14,1,5],[1,5,9,13,2,6],
              [11,10,9,8,7,6],[8,9,10,11,4,5],[7,6,5,4,11,10],[4,5,6,7,8,9]]. h f)"
  using assms
  by (auto simp: symmetries_def rotations_def reflections_def rotate_cell_def reflect_cell_def
        right_rotation_matching_def reflection_matching_def)

lemma orbit2_rot:
  fixes h :: "int list \<Rightarrow> real"
  assumes "g \<in> set rotations"
  shows "(\<Sum>f\<leftarrow>[[6,10,14,5,9,13],[5,6,7,9,10,11],[10,9,8,6,5,4],[9,5,1,10,6,2]].
            h (map (\<lambda>p. int (g (nat p))) f))
       = (\<Sum>f\<leftarrow>[[6,10,14,5,9,13],[5,6,7,9,10,11],[10,9,8,6,5,4],[9,5,1,10,6,2]]. h f)"
  using assms
  by (auto simp: rotations_def rotate_cell_def right_rotation_matching_def)

lemma orbit3_sym:
  fixes h :: "int list \<Rightarrow> real"
  assumes "g \<in> set symmetries"
  shows "(\<Sum>f\<leftarrow>[[9,10,11,13,14,15],[6,10,14,7,11,15],[10,9,8,14,13,12],[5,9,13,4,8,12],
              [10,6,2,11,7,3],[9,5,1,8,4,0],[5,6,7,1,2,3],[6,5,4,2,1,0]].
            h (map (\<lambda>p. int (g (nat p))) f))
       = (\<Sum>f\<leftarrow>[[9,10,11,13,14,15],[6,10,14,7,11,15],[10,9,8,14,13,12],[5,9,13,4,8,12],
              [10,6,2,11,7,3],[9,5,1,8,4,0],[5,6,7,1,2,3],[6,5,4,2,1,0]]. h f)"
  using assms
  by (auto simp: symmetries_def rotations_def reflections_def rotate_cell_def reflect_cell_def
        right_rotation_matching_def reflection_matching_def)

lemma table_value_transform:
  assumes fs: "features ag = map create_iso_feature feats" and i: "i < 4"
  shows "table_value ag i (b \<circ> g)
       = (\<Sum>f\<leftarrow>features ag ! i. net ag ! i ! feature_index (map (\<lambda>p. int (g (nat p))) f) b)"
proof -
  have "length (features ag) = 4" using fs by (simp add: feats_def)
  then have "features ag ! i \<in> set (map create_iso_feature feats)"
    using i fs nth_mem [of i "features ag"] by simp
  then have "\<forall>f\<in>set (features ag ! i). -1 \<notin> set f" using configured_shape by blast
  then show ?thesis
    unfolding table_value_def by (intro arg_cong [of _ _ sum_list] map_cong) (simp_all add: index_transform)
qed

lemma configured_nth:
  "map create_iso_feature feats ! 0 =
     [[15,14,13,12,11,10],[12,13,14,15,8,9],[15,11,7,3,14,10],[3,7,11,15,2,6],
      [12,8,4,0,13,9],[0,4,8,12,1,5],[3,2,1,0,7,6],[0,1,2,3,4,5]]"
  "map create_iso_feature feats ! 1 =
     [[14,10,6,2,13,9],[13,9,5,1,14,10],[2,6,10,14,1,5],[1,5,9,13,2,6],
      [11,10,9,8,7,6],[8,9,10,11,4,5],[7,6,5,4,11,10],[4,5,6,7,8,9]]"
  "map create_iso_feature feats ! 2 =
     [[6,10,14,5,9,13],[5,6,7,9,10,11],[10,9,8,6,5,4],[9,5,1,10,6,2]]"
  "map create_iso_feature feats ! 3 =
     [[9,10,11,13,14,15],[6,10,14,7,11,15],[10,9,8,14,13,12],[5,9,13,4,8,12],
      [10,6,2,11,7,3],[9,5,1,8,4,0],[5,6,7,1,2,3],[6,5,4,2,1,0]]"
  unfolding configured_features by simp_all

lemma table_value_sym:
  assumes fs: "features ag = map create_iso_feature feats"
  shows "g \<in> set symmetries \<Longrightarrow> table_value ag 0 (b \<circ> g) = table_value ag 0 b"
    and "g \<in> set symmetries \<Longrightarrow> table_value ag 1 (b \<circ> g) = table_value ag 1 b"
    and "g \<in> set rotations \<Longrightarrow> table_value ag 2 (b \<circ> g) = table_value ag 2 b"
    and "g \<in> set symmetries \<Longrightarrow> table_value ag 3 (b \<circ> g) = table_value ag 3 b"
proof -
  show "g \<in> set symmetries \<Longrightarrow> table_value ag 0 (b \<circ> g) = table_value ag 0 b"
  proof -
    assume g: "g \<in> set symmetries"
    have "table_value ag 0 (b \<circ> g)
        = (\<Sum>f\<leftarrow>features ag ! 0. net ag ! 0 ! feature_index (map (\<lambda>p. int (g (nat p))) f) b)"
      by (rule table_value_transform [OF fs]) simp
    also have "\<dots> = (\<Sum>f\<leftarrow>features ag ! 0. net ag ! 0 ! feature_index f b)"
      unfolding fs configured_nth
      by (rule orbit0_sym [OF g, of "\<lambda>f. net ag ! 0 ! feature_index f b"])
    finally show ?thesis by (simp only: table_value_def)
  qed
  show "g \<in> set symmetries \<Longrightarrow> table_value ag 1 (b \<circ> g) = table_value ag 1 b"
  proof -
    assume g: "g \<in> set symmetries"
    have "table_value ag 1 (b \<circ> g)
        = (\<Sum>f\<leftarrow>features ag ! 1. net ag ! 1 ! feature_index (map (\<lambda>p. int (g (nat p))) f) b)"
      by (rule table_value_transform [OF fs]) simp
    also have "\<dots> = (\<Sum>f\<leftarrow>features ag ! 1. net ag ! 1 ! feature_index f b)"
      unfolding fs configured_nth
      by (rule orbit1_sym [OF g, of "\<lambda>f. net ag ! 1 ! feature_index f b"])
    finally show ?thesis by (simp only: table_value_def)
  qed
  show "g \<in> set rotations \<Longrightarrow> table_value ag 2 (b \<circ> g) = table_value ag 2 b"
  proof -
    assume g: "g \<in> set rotations"
    have "table_value ag 2 (b \<circ> g)
        = (\<Sum>f\<leftarrow>features ag ! 2. net ag ! 2 ! feature_index (map (\<lambda>p. int (g (nat p))) f) b)"
      by (rule table_value_transform [OF fs]) simp
    also have "\<dots> = (\<Sum>f\<leftarrow>features ag ! 2. net ag ! 2 ! feature_index f b)"
      unfolding fs configured_nth
      by (rule orbit2_rot [OF g, of "\<lambda>f. net ag ! 2 ! feature_index f b"])
    finally show ?thesis by (simp only: table_value_def)
  qed
  show "g \<in> set symmetries \<Longrightarrow> table_value ag 3 (b \<circ> g) = table_value ag 3 b"
  proof -
    assume g: "g \<in> set symmetries"
    have "table_value ag 3 (b \<circ> g)
        = (\<Sum>f\<leftarrow>features ag ! 3. net ag ! 3 ! feature_index (map (\<lambda>p. int (g (nat p))) f) b)"
      by (rule table_value_transform [OF fs]) simp
    also have "\<dots> = (\<Sum>f\<leftarrow>features ag ! 3. net ag ! 3 ! feature_index f b)"
      unfolding fs configured_nth
      by (rule orbit3_sym [OF g, of "\<lambda>f. net ag ! 3 ! feature_index f b"])
    finally show ?thesis by (simp only: table_value_def)
  qed
qed

lemma get_value_tables:
  assumes fs: "features ag = map create_iso_feature feats"
  shows "get_value ag b = table_value ag 0 b + table_value ag 1 b + table_value ag 2 b + table_value ag 3 b"
proof -
  have "length (features ag) = 4" using fs by (simp add: feats_def)
  then show ?thesis
    by (simp add: get_value_sum table_value_def upt_rec [of _ "numeral n" for n]
          numeral_2_eq_2 numeral_3_eq_3)
qed

lemma table_value_zero:
  assumes fs: "features ag = map create_iso_feature feats" and i: "i < 4"
    and n: "net ag ! i = replicate (16 ^ 6) 0"
    and b: "list_all (\<lambda>c. b c < 16) [0..<16]"
  shows "table_value ag i b = 0"
proof -
  have "length (features ag) = 4" using fs by (simp add: feats_def)
  then have o: "features ag ! i \<in> set (map create_iso_feature feats)"
    using i fs nth_mem [of i "features ag"] by simp
  have "net ag ! i ! feature_index f b = 0" if "f \<in> set (features ag ! i)" for f
  proof -
    have "valid_feature f \<and> length f = 6 \<and> -1 \<notin> set f"
      using o that configured_shape by blast
    then have "feature_index f b < 16 ^ 6"
      using no_hint_index_in_range [OF b, of f] by simp
    then show ?thesis using n by simp
  qed
  then have "map (\<lambda>f. net ag ! i ! feature_index f b) (features ag ! i)
           = map (\<lambda>f. 0) (features ag ! i)"
    by (intro map_cong) simp_all
  then have "table_value ag i b = (\<Sum>f\<leftarrow>features ag ! i. 0)"
    unfolding table_value_def by (rule arg_cong)
  then show ?thesis by simp
qed

subsection \<open>Tables that hold the indices\<close>

lemma tables_hold_iff:
  "tables_hold ag b \<longleftrightarrow>
     length (features ag) \<le> length (net ag) \<and>
     (\<forall>i<length (features ag). \<forall>f\<in>set (features ag ! i). feature_index f b < length (net ag ! i))"
  by (auto simp: tables_hold_def list_all_iff)

lemma tables_hold_cong:
  assumes "features ag' = features ag" and "map length (net ag') = map length (net ag)"
  shows "tables_hold ag' b = tables_hold ag b"
proof -
  have l: "length (net ag') = length (net ag)" using assms(2) by (rule map_eq_imp_length_eq)
  have "length (net ag' ! i) = length (net ag ! i)" if "i < length (net ag)" for i
    using that l assms(2) nth_map [of i "net ag'" length] nth_map [of i "net ag" length] by simp
  then show ?thesis using assms(1) l by (auto simp: tables_hold_iff)
qed

lemma bump_sizes: "map length (bump i idx tg n) = map length n"
  by (rule nth_equalityI) simp_all

lemma inner_fold_sizes: "map length (fold (\<lambda>f n. bump i (g f) tg n) fs n) = map length n"
  by (induction fs arbitrary: n) (simp_all add: bump_sizes)

lemma outer_fold_sizes:
  "map length (fold (\<lambda>i n. fold (\<lambda>f n. bump i (g f) tg n) (fss ! i) n) is n) = map length n"
  by (induction "is" arbitrary: n) (simp_all add: inner_fold_sizes)

lemma update_weight_sizes: "map length (net (update_weight target b ag)) = map length (net ag)"
  by (simp add: update_weight_net outer_fold_sizes)

lemma tables_hold_update_weight [simp]:
  "tables_hold (update_weight target c ag) b = tables_hold ag b"
  by (rule tables_hold_cong) (simp_all add: update_weight_sizes)

lemma tables_hold_history [simp]: "tables_hold (ag\<lparr>history := h\<rparr>) b = tables_hold ag b"
  by (simp add: tables_hold_def)

lemma tables_hold_take_action [simp]:
  "tables_hold (snd (take_action slide c ag)) b = tables_hold ag b"
  by (rule tables_hold_cong) (simp_all add: take_action_def split: prod.splits)

lemma close_loop_sizes: "map length (net (close_loop prev ag)) = map length (net ag)"
proof (induction prev ag rule: close_loop.induct)
  case (1 prev ag)
  show ?case
  proof (cases "history ag")
    case Nil
    then show ?thesis by (simp add: close_loop_Nil)
  next
    case (Cons current rest)
    then show ?thesis using 1 [OF Cons refl refl refl]
      by (simp add: close_loop_Cons update_weight_sizes)
  qed
qed

lemma tables_hold_configured:
  assumes fs: "features ag = map create_iso_feature feats"
    and n: "map length (net ag) = replicate 4 (16 ^ 6)"
    and b: "list_all (\<lambda>i. b i < 16) [0..<16]"
  shows "tables_hold ag b"
proof -
  have l4: "length (features ag) = 4" using fs by (simp add: feats_def)
  have "length (map length (net ag)) = length (replicate 4 ((16::nat) ^ 6))" using n by simp
  then have n4: "length (net ag) = 4" by simp
  have "feature_index f b < length (net ag ! i)"
    if "i < length (features ag)" "f \<in> set (features ag ! i)" for i f
  proof -
    have i: "i < 4" using that(1) l4 by simp
    have "features ag ! i \<in> set (map create_iso_feature feats)"
      using that(1) fs nth_mem [of i "features ag"] by simp
    then have "valid_feature f \<and> length f = 6 \<and> -1 \<notin> set f"
      using that(2) configured_shape by blast
    then have x: "feature_index f b < 16 ^ 6"
      using no_hint_index_in_range [OF b, of f] by simp
    have "map length (net ag) ! i = replicate 4 (16 ^ 6) ! i" using n by simp
    then have "length (net ag ! i) = 16 ^ 6" using i n4 by simp
    then show ?thesis using x by simp
  qed
  then show ?thesis using l4 n4 by (simp add: tables_hold_iff)
qed

lemma boards_take_actions:
  "map fst (history (take_actions slide bs ag)) = rev bs @ map fst (history ag)"
proof (induction bs arbitrary: ag)
  case Nil
  then show ?case by (simp add: take_actions_def)
next
  case (Cons b bs)
  obtain rew where "history (snd (take_action slide b ag)) = (b, rew) # history ag"
    using history_take_action by blast
  then show ?case using Cons [of "snd (take_action slide b ag)"]
    by (simp add: take_actions_def)
qed

lemma tables_hold_take_actions [simp]:
  "tables_hold (take_actions slide bs ag) b = tables_hold ag b"
proof (induction bs arbitrary: ag)
  case Nil
  then show ?case by (simp add: take_actions_def)
next
  case (Cons c bs)
  show ?case using Cons [of "snd (take_action slide c ag)"] by (simp add: take_actions_def)
qed

lemma close_episode_defined_iff:
  "close_episode_defined ag \<longleftrightarrow>
     history ag \<noteq> [] \<and> (\<forall>b\<in>set (map fst (history ag)). tables_hold ag b)"
  by (auto simp: close_episode_defined_def list_all_iff)

lemma states_spec_calls: "map snd (spec_calls prev h ag) = map fst h"
  by (induction prev h ag rule: spec_calls.induct) (simp_all add: Let_def)

lemma states_spec_close_calls: "map snd (spec_close_calls ag) = map fst (history ag)"
  by (cases "history ag") (auto simp: spec_close_calls_def states_spec_calls)

lemma tables_hold_replay [simp]: "tables_hold (replay calls ag) b = tables_hold ag b"
proof -
  have "tables_hold (fold (\<lambda>(target, state) ag. update_weight target state ag) calls ag) b
          = tables_hold ag b"
    by (induction calls arbitrary: ag) (simp_all split: prod.splits)
  then show ?thesis by (simp add: replay_def)
qed

subsection \<open>A backward pass of two entries\<close>

lemma table_value_indices:
  "table_value ag i b = (\<Sum>j\<leftarrow>map (\<lambda>f. feature_index f b) (features ag ! i). net ag ! i ! j)"
  by (simp add: table_value_def comp_def)

lemma filter_count_list: "length (filter (\<lambda>f. g f = j) fs) = count_list (map g fs) j"
  by (induction fs) simp_all

lemma example_indices:
  "map (\<lambda>f. feature_index f ((\<lambda>i. 0)(5 := 1))) (map create_iso_feature feats ! 0)
     = [0, 0, 0, 0, 0, 1, 0, 1]"
  "map (\<lambda>f. feature_index f ((\<lambda>i. 0)(5 := 1))) (map create_iso_feature feats ! 1)
     = [0, 4096, 1, 65536, 0, 1, 4096, 65536]"
  "map (\<lambda>f. feature_index f ((\<lambda>i. 0)(5 := 1))) (map create_iso_feature feats ! 2)
     = [256, 1048576, 16, 65536]"
  "map (\<lambda>f. feature_index f ((\<lambda>i. 0)(5 := 1))) (map create_iso_feature feats ! 3)
     = [0, 0, 0, 1048576, 0, 65536, 1048576, 65536]"
  unfolding configured_nth by (simp_all add: feature_index_def push_bit_eq_mult)

lemma example_first_update:
  fixes h :: "(board \<times> int) list"
  defines "ag \<equiv> \<lparr>meta = Map.empty, net = replicate 4 (replicate (16 ^ 6) 1), alpha = 7 / 8,
      features = map create_iso_feature feats, feature_num = 28,
      op_code = [0,1,2,3], history = h\<rparr>"
  shows "get_value ag ((\<lambda>i. 0)(5 := 1)) = 28 \<and>
         get_value (update_weight 0 ((\<lambda>i. 0)(5 := 1)) ag) ((\<lambda>i. 0)(5 := 1)) = - (91 / 2)"
proof -
  let ?b = "(\<lambda>i. 0)(5 := 1) :: board"
  let ?U = "update_weight 0 ?b ag"
  have fs: "features ag = map create_iso_feature feats" by (simp add: ag_def)
  have fsU: "features ?U = map create_iso_feature feats" by (simp add: ag_def)
  have n: "net ag = replicate 4 (replicate (16 ^ 6) 1)" by (simp add: ag_def)
  have v: "get_value ag ?b = 28"
    using get_value_const [OF fs n, of ?b] by (simp add: list_all_iff)
  have e: "net ?U ! i ! j =
             1 - 7 * real (count_list (map (\<lambda>f. feature_index f ?b)
                                  (map create_iso_feature feats ! i)) j) / 8"
    if "i < 4" "j < 16 ^ 6" for i j
  proof -
    have a: "i < length (net ag)" using that(1) n by simp
    have b: "j < length (net ag ! i)" using that n by simp
    have c: "i < length (features ag)" using that(1) fs by (simp add: feats_def)
    have d: "net ag ! i ! j = 1" using that n by simp
    show ?thesis
      using update_weight_pointwise [OF a b, of 0 ?b] c d v
      by (simp add: filter_count_list fs ag_def)
  qed
  have t0: "table_value ?U 0 ?b = -27"
    unfolding table_value_indices fsU example_indices using e [of 0, unfolded example_indices] by simp
  have t1: "table_value ?U 1 ?b = -6"
    unfolding table_value_indices fsU example_indices using e [of 1, unfolded example_indices] by simp
  have t2: "table_value ?U 2 ?b = 1 / 2"
    unfolding table_value_indices fsU example_indices using e [of 2, unfolded example_indices] by simp
  have t3: "table_value ?U 3 ?b = -13"
    unfolding table_value_indices fsU example_indices using e [of 3, unfolded example_indices] by simp
  have "get_value ?U ?b = - (91 / 2)"
    unfolding get_value_tables [OF fsU] t0 t1 t2 t3 by simp
  with v show ?thesis by simp
qed

subsection \<open>The rotation that keeps the hint slot\<close>

lemma rotate_keeping_hint_on_board: "on_board t \<Longrightarrow> rotate_keeping_hint t = map rot t"
  by (auto simp: rotate_keeping_hint_def rot_def on_board_def list_all_iff)

lemma rotate_keeping_hint_append:
  "rotate_keeping_hint (t @ [-1]) = rotate_keeping_hint t @ [-1]"
  by (simp add: rotate_keeping_hint_def)

lemma rotate_keeping_hint_member:
  assumes "valid_feature feat" and "v \<in> set (create_iso_feature feat)"
  shows "rotate_keeping_hint v = (if -1 \<in> set feat then left_rotate v @ [-1] else left_rotate v) \<and>
         rotate_keeping_hint (rotate_keeping_hint (rotate_keeping_hint (rotate_keeping_hint v))) = v"
proof -
  from create_iso_feature_variant [OF assms] obtain g where
    g: "g \<in> set variant_maps"
    and v: "v = (if -1 \<in> set feat then map g (real_positions feat) @ [-1]
                 else map g (real_positions feat))"
    by blast
  let ?t = "map g (real_positions feat)"
  have t: "on_board ?t"
    using variant_on_board [OF on_board_real_positions [OF assms(1)] g] .
  have rp: "real_positions v = ?t"
    using v real_positions_on_board [OF t] by (auto simp: real_positions_def)
  have l: "left_rotate v = map rot ?t" by (simp add: left_rotate_map rp)
  have o1: "on_board (map rot ?t)" using t on_board_map by blast
  have o2: "on_board (map rot (map rot ?t))" using o1 on_board_map by blast
  have o3: "on_board (map rot (map rot (map rot ?t)))" using o2 on_board_map by blast
  have r4: "rotate_keeping_hint (rotate_keeping_hint (rotate_keeping_hint (rotate_keeping_hint ?t))) = ?t"
    using t o1 o2 o3 map_rot4 [OF t] by (simp add: rotate_keeping_hint_on_board)
  show ?thesis
  proof (cases "-1 \<in> set feat")
    case True
    then have "v = ?t @ [-1]" using v by simp
    then show ?thesis
      using True l r4 t by (simp add: rotate_keeping_hint_append rotate_keeping_hint_on_board)
  next
    case False
    then have "v = ?t" using v by simp
    then show ?thesis using False l r4 t by (simp add: rotate_keeping_hint_on_board)
  qed
qed

subsection \<open>Non-finite values\<close>

lemma double_add_zero [simp]: "double_add s (Finite 0) = s"
  by (cases s) simp_all

lemma get_value_ieee_tables:
  assumes "length fs = 4"
  shows "get_value_ieee tables fs b =
     fold (\<lambda>f sum. double_add sum (tables ! 3 ! feature_index f b)) (fs ! 3)
       (fold (\<lambda>f sum. double_add sum (tables ! 2 ! feature_index f b)) (fs ! 2)
          (fold (\<lambda>f sum. double_add sum (tables ! 1 ! feature_index f b)) (fs ! 1)
             (fold (\<lambda>f sum. double_add sum (tables ! 0 ! feature_index f b)) (fs ! 0) (Finite 0))))"
  using assms
  by (simp add: get_value_ieee_def upt_rec [of _ "numeral n" for n] numeral_2_eq_2 numeral_3_eq_3)

lemma update_weight_ieee_fold:
  "update_weight_ieee rate fnum fs target cur tables =
     fold (\<lambda>i n. fold (\<lambda>f n. bump_double i (feature_index f cur)
                (double_mul (double_div rate (Finite (real_of_int fnum)))
                   (double_sub target (get_value_ieee tables fs cur))) n) (fs ! i) n)
       [0..<length fs] tables"
  by (simp add: update_weight_ieee_def Let_def bump_double_def)

lemma embed_bump:
  "map (map Finite) (bump i idx tg n) = bump_double i idx (Finite tg) (map (map Finite) n)"
proof (cases "i < length n")
  case False
  then show ?thesis by (simp add: bump_def bump_double_def list_update_beyond)
next
  case True
  show ?thesis
  proof (cases "idx < length (n ! i)")
    case False
    have "(map (map Finite) n)[i := map (map Finite) n ! i] = map (map Finite) n"
      by (rule list_update_id)
    then show ?thesis
      using True False by (simp add: bump_def bump_double_def list_update_beyond map_update)
  next
    case idx: True
    then show ?thesis using True by (simp add: bump_def bump_double_def map_update)
  qed
qed

lemma embed_inner_fold:
  "map (map Finite) (fold (\<lambda>f n. bump i (g f) tg n) fs n)
     = fold (\<lambda>f n. bump_double i (g f) (Finite tg) n) fs (map (map Finite) n)"
  by (induction fs arbitrary: n) (simp_all add: embed_bump)

lemma embed_outer_fold:
  "map (map Finite) (fold (\<lambda>i n. fold (\<lambda>f n. bump i (g f) tg n) (fss ! i) n) is n)
     = fold (\<lambda>i n. fold (\<lambda>f n. bump_double i (g f) (Finite tg) n) (fss ! i) n) is
         (map (map Finite) n)"
  by (induction "is" arbitrary: n) (simp_all add: embed_inner_fold)

lemma embed_inner_sum:
  assumes "i < length n" and "\<forall>f\<in>set fs. g f < length (n ! i)"
  shows "fold (\<lambda>f sum. double_add sum (map (map Finite) n ! i ! g f)) fs (Finite s)
           = Finite (fold (\<lambda>f sum. sum + n ! i ! g f) fs s)"
  using assms(2) by (induction fs arbitrary: s) (simp_all add: assms(1))

lemma embed_outer_sum:
  assumes "\<forall>i\<in>set is. i < length n \<and> (\<forall>f\<in>set (fss ! i). g f < length (n ! i))"
  shows "fold (\<lambda>i sum. fold (\<lambda>f sum. double_add sum (map (map Finite) n ! i ! g f)) (fss ! i) sum)
            is (Finite s)
           = Finite (fold (\<lambda>i sum. fold (\<lambda>f sum. sum + n ! i ! g f) (fss ! i) sum) is s)"
  using assms
proof (induction "is" arbitrary: s)
  case Nil
  then show ?case by simp
next
  case (Cons a "is")
  have a: "a < length n" and f: "\<forall>f\<in>set (fss ! a). g f < length (n ! a)"
    using Cons.prems by simp_all
  have r: "\<forall>i\<in>set is. i < length n \<and> (\<forall>f\<in>set (fss ! i). g f < length (n ! i))"
    using Cons.prems by simp
  show ?case
    unfolding fold_Cons comp_def embed_inner_sum [OF a f] by (rule Cons.IH [OF r])
qed

lemma get_value_ieee_finite:
  assumes "tables_hold ag b"
  shows "get_value_ieee (map (map Finite) (net ag)) (features ag) b = Finite (get_value ag b)"
  unfolding get_value_ieee_def get_value_def
  by (rule embed_outer_sum) (use assms in \<open>auto simp: tables_hold_iff\<close>)

lemma update_weight_ieee_finite:
  assumes "tables_hold ag b" and "feature_num ag \<noteq> 0"
  shows "update_weight_ieee (Finite (alpha ag)) (feature_num ag) (features ag) (Finite target) b
           (map (map Finite) (net ag))
         = map (map Finite) (net (update_weight target b ag))"
  using assms(2)
  by (simp add: update_weight_ieee_fold update_weight_net get_value_ieee_finite [OF assms(1)]
      embed_outer_fold double_sub_def)

lemma inner_fold_double:
  "i' < length n \<Longrightarrow> j < length (n ! i') \<Longrightarrow>
   length (fold (\<lambda>f n. bump_double i (g f) tg n) fs n) = length n \<and>
   length (fold (\<lambda>f n. bump_double i (g f) tg n) fs n ! i') = length (n ! i') \<and>
   fold (\<lambda>f n. bump_double i (g f) tg n) fs n ! i' ! j =
     (if i' = i then ((\<lambda>x. double_add x tg) ^^ length (filter (\<lambda>f. g f = j) fs)) (n ! i' ! j)
      else n ! i' ! j)"
proof (induction fs arbitrary: n)
  case Nil
  then show ?case by simp
next
  case (Cons f fs)
  let ?m = "bump_double i (g f) tg n"
  have l: "length ?m = length n" by (simp add: bump_double_def)
  have r: "length (?m ! i') = length (n ! i')"
    using Cons.prems by (cases "i' = i") (simp_all add: bump_double_def)
  have v: "?m ! i' ! j = (if i' = i \<and> j = g f then double_add (n ! i' ! j) tg else n ! i' ! j)"
    using Cons.prems by (cases "i' = i") (auto simp: bump_double_def nth_list_update)
  have a: "i' < length ?m" using Cons.prems l by simp
  have b: "j < length (?m ! i')" using Cons.prems r by simp
  have sw: "((\<lambda>x. double_add x tg) ^^ c) (double_add x tg)
              = double_add (((\<lambda>x. double_add x tg) ^^ c) x) tg" for c x
    using funpow_swap1 [of "\<lambda>x. double_add x tg" c x] by simp
  from Cons.IH [OF a b] l r v show ?case by (auto simp: sw)
qed

lemma outer_fold_double:
  "i' < length n \<Longrightarrow> j < length (n ! i') \<Longrightarrow>
   length (fold (\<lambda>i n. fold (\<lambda>f n. bump_double i (g f) tg n) (fss ! i) n) [0..<k] n) = length n \<and>
   length (fold (\<lambda>i n. fold (\<lambda>f n. bump_double i (g f) tg n) (fss ! i) n) [0..<k] n ! i')
     = length (n ! i') \<and>
   fold (\<lambda>i n. fold (\<lambda>f n. bump_double i (g f) tg n) (fss ! i) n) [0..<k] n ! i' ! j =
     (if i' < k then ((\<lambda>x. double_add x tg) ^^ length (filter (\<lambda>f. g f = j) (fss ! i'))) (n ! i' ! j)
      else n ! i' ! j)"
proof (induction k)
  case 0
  then show ?case by simp
next
  case (Suc k)
  let ?m = "fold (\<lambda>i n. fold (\<lambda>f n. bump_double i (g f) tg n) (fss ! i) n) [0..<k] n"
  have a: "i' < length ?m" using Suc by simp
  have b: "j < length (?m ! i')" using Suc by simp
  from inner_fold_double [OF a b, of k g tg "fss ! k"] Suc.IH [OF Suc.prems]
  show ?case by (auto simp: less_Suc_eq)
qed

lemma update_weight_ieee_pointwise:
  assumes "i < length tables" and "j < length (tables ! i)" and "i < length fs"
  shows "update_weight_ieee rate fnum fs target cur tables ! i ! j =
     ((\<lambda>x. double_add x (double_mul (double_div rate (Finite (real_of_int fnum)))
                            (double_sub target (get_value_ieee tables fs cur))))
        ^^ length (filter (\<lambda>f. feature_index f cur = j) (fs ! i))) (tables ! i ! j)"
  using outer_fold_double [OF assms(1,2), of "\<lambda>f. feature_index f cur" _ fs "length fs"] assms(3)
  by (simp add: update_weight_ieee_fold)

lemma agent_load_only:
  "agent ''load=w.bin'' ''init'' = None \<and>
   agent ''load=w.bin'' ''load'' = Some ''w.bin'' \<and>
   agent ''load=w.bin'' ''alpha'' = None"
  by (simp add: agent_def is_space_def key_of_def value_of_def)

section \<open>Claims\<close>

text \<open>
  C1. For every board with a legal move \<^verbatim>\<open>take_action\<close> is to return the legal move with the
  greatest estimate (the first of them in the order 0, 1, 2, 3) and to record the board with
  the reward of that move; the null action is for boards without a legal move only.
  \<open>take_action_best\<close> above proves this whenever some legal move has an estimate above
  \<open>-1\<close>. The loop starts \<^verbatim>\<open>best\<close> at \<open>-1\<close>, though, and \<open>take_action_none_above\<close> shows what
  follows when no estimate is above it. Evaluated here: every table entry is \<open>-1\<close>, so every
  board has value \<open>-28\<close>; the board holds one tile, in cell 4; sliding it up, right or down
  is legal with reward 0. The agent returns the null action and records reward 0.
\<close>

theorem take_action_negative_estimates:
  "legal (\<lambda>b op. if op = 0 then ((\<lambda>i. 0)(0 := 3), 0)
                  else if op = 1 then ((\<lambda>i. 0)(5 := 3), 0)
                  else if op = 2 then ((\<lambda>i. 0)(8 := 3), 0)
                  else (b, -1))
         ((\<lambda>i. 0)(4 := 3)) 0 \<and>
   take_action (\<lambda>b op. if op = 0 then ((\<lambda>i. 0)(0 := 3), 0)
                        else if op = 1 then ((\<lambda>i. 0)(5 := 3), 0)
                        else if op = 2 then ((\<lambda>i. 0)(8 := 3), 0)
                        else (b, -1))
     ((\<lambda>i. 0)(4 := 3))
     \<lparr>meta = Map.empty, net = replicate 4 (replicate (16 ^ 6) (-1)), alpha = 1 / 10,
      features = map create_iso_feature feats, feature_num = 28,
      op_code = [0,1,2,3], history = []\<rparr>
   = (NoAction,
      \<lparr>meta = Map.empty, net = replicate 4 (replicate (16 ^ 6) (-1)), alpha = 1 / 10,
       features = map create_iso_feature feats, feature_num = 28,
       op_code = [0,1,2,3], history = [((\<lambda>i. 0)(4 := 3), 0)]\<rparr>)"
proof -
  let ?slide = "\<lambda>(b::board) (op::int). if op = 0 then ((\<lambda>i. 0)(0 := 3), 0::int)
                  else if op = 1 then ((\<lambda>i. 0)(5 := 3), 0)
                  else if op = 2 then ((\<lambda>i. 0)(8 := 3), 0)
                  else (b, -1)"
  let ?ag = "\<lparr>meta = Map.empty, net = replicate 4 (replicate (16 ^ 6) (-1)), alpha = 1 / 10,
      features = map create_iso_feature feats, feature_num = 28,
      op_code = [0,1,2,3], history = []\<rparr>"
  have v: "get_value ?ag ((\<lambda>i. 0)(c := 3)) = -28" for c :: nat
    using get_value_const [of ?ag "-1" "(\<lambda>i. 0)(c := 3)"] by (simp add: list_all_iff)
  have "\<forall>op\<in>set (op_code ?ag). legal ?slide ((\<lambda>i. 0)(4 := 3)) op \<longrightarrow>
          estimate ?slide ?ag ((\<lambda>i. 0)(4 := 3)) op \<le> -1"
    using v [of 0] v [of 5] v [of 8] by (simp add: legal_def estimate_def)
  from take_action_none_above [OF this] show ?thesis by (simp add: legal_def)
qed

text \<open>
  C2. For every non-empty trajectory, \<^verbatim>\<open>close_episode\<close> pops the last entry and calls
  \<^verbatim>\<open>update_weight\<close> with target 0 on that terminal state, then pops the remaining entries
  in LIFO order and calls \<^verbatim>\<open>update_weight\<close> with target = recorded reward + value of the
  previous state, the value being read after the preceding update; for a single-entry
  trajectory there is exactly one call, with target 0. Stated for every agent with a
  non-empty trajectory whose tables hold the indices of every recorded board
  (\<open>close_episode_defined\<close>; outside it the source reads the top of an empty stack or
  leaves a table): the agent that \<^verbatim>\<open>close_episode\<close> returns is the agent with its history
  emptied after the calls of \<open>spec_close_calls\<close>; there is one call per entry, the states
  of the calls are the recorded boards from the top of the stack down, the first target is
  0, and every call is made on tables that hold the indices of its state.
\<close>

theorem close_episode_backward_pass:
  "close_episode_defined ag \<Longrightarrow>
     close_episode ag = Some (replay (spec_close_calls ag) (ag\<lparr>history := []\<rparr>)) \<and>
     length (spec_close_calls ag) = length (history ag) \<and>
     map snd (spec_close_calls ag) = map fst (history ag) \<and>
     fst (hd (spec_close_calls ag)) = 0 \<and>
     (length (history ag) = 1 \<longrightarrow> spec_close_calls ag = [(0, fst (hd (history ag)))]) \<and>
     (\<forall>k<length (spec_close_calls ag).
        tables_hold (replay (take k (spec_close_calls ag)) ag) (snd (spec_close_calls ag ! k)))"
proof -
  assume d: "close_episode_defined ag"
  then have "history ag \<noteq> []" by (simp add: close_episode_defined_def)
  then obtain current rest where Cons: "history ag = current # rest" by (cases "history ag") auto
  obtain terminal reward where c: "current = (terminal, reward)" by (cases current)
  have "close_episode ag = Some (replay (spec_close_calls ag) (ag\<lparr>history := []\<rparr>))"
    using Cons c
    by (simp add: close_episode_def Let_def close_loop_replay spec_close_calls_def replay_def
        update_weight_history spec_calls_history)
  moreover have "length (spec_close_calls ag) = length (history ag)"
    using Cons c by (simp add: spec_close_calls_def length_spec_calls)
  moreover have s: "map snd (spec_close_calls ag) = map fst (history ag)"
    by (rule states_spec_close_calls)
  moreover have "fst (hd (spec_close_calls ag)) = 0"
    using Cons c by (simp add: spec_close_calls_def)
  moreover have "length (history ag) = 1 \<longrightarrow> spec_close_calls ag = [(0, fst (hd (history ag)))]"
    using Cons c by (simp add: spec_close_calls_def)
  moreover have "tables_hold (replay (take k (spec_close_calls ag)) ag) (snd (spec_close_calls ag ! k))"
    if "k < length (spec_close_calls ag)" for k
  proof -
    have "snd (spec_close_calls ag ! k) = map snd (spec_close_calls ag) ! k"
      using that by simp
    also have "\<dots> \<in> set (map fst (history ag))"
      unfolding s using that nth_mem [of k "map fst (history ag)"] s
      by (metis length_map)
    finally show ?thesis using d by (auto simp: close_episode_defined_iff)
  qed
  ultimately show ?thesis by blast
qed

text \<open>
  The pass on a trajectory of two entries. Every table entry is 1 and the learning rate is
  \<open>7 / 8\<close>, so the step of the first call is \<open>7 / 8 / 28 * (0 - 28) = - 7 / 8\<close>. The
  terminal board, one tile of rank 1 in cell 5, has the value 28; the call with target 0
  leaves it with the value \<open>- 91 / 2\<close> (\<open>example_first_update\<close> above: several features of
  an orbit have the same index on this board, so that an entry is stepped more than once),
  and the target of the second call is the recorded reward 4 plus that, \<open>- 83 / 2\<close>, where
  the value before the first call would have given 32. (All these numbers are binary
  fractions: the \<^verbatim>\<open>float\<close> and \<^verbatim>\<open>double\<close> arithmetic of the source is exact on them.)
\<close>

theorem close_episode_backward_pass_witness:
  "close_episode_defined
     \<lparr>meta = Map.empty, net = replicate 4 (replicate (16 ^ 6) 1), alpha = 7 / 8,
      features = map create_iso_feature feats, feature_num = 28, op_code = [0,1,2,3],
      history = [((\<lambda>i. 0)(5 := 1), 0), ((\<lambda>i. 0)(4 := 1), 4)]\<rparr> \<and>
   get_value
     \<lparr>meta = Map.empty, net = replicate 4 (replicate (16 ^ 6) 1), alpha = 7 / 8,
      features = map create_iso_feature feats, feature_num = 28, op_code = [0,1,2,3],
      history = [((\<lambda>i. 0)(5 := 1), 0), ((\<lambda>i. 0)(4 := 1), 4)]\<rparr>
     ((\<lambda>i. 0)(5 := 1)) = 28 \<and>
   spec_close_calls
     \<lparr>meta = Map.empty, net = replicate 4 (replicate (16 ^ 6) 1), alpha = 7 / 8,
      features = map create_iso_feature feats, feature_num = 28, op_code = [0,1,2,3],
      history = [((\<lambda>i. 0)(5 := 1), 0), ((\<lambda>i. 0)(4 := 1), 4)]\<rparr>
     = [(0, (\<lambda>i. 0)(5 := 1)), (- (83 / 2), (\<lambda>i. 0)(4 := 1))] \<and>
   close_episode
     \<lparr>meta = Map.empty, net = replicate 4 (replicate (16 ^ 6) 1), alpha = 7 / 8,
      features = map create_iso_feature feats, feature_num = 28, op_code = [0,1,2,3],
      history = [((\<lambda>i. 0)(5 := 1), 0), ((\<lambda>i. 0)(4 := 1), 4)]\<rparr>
     = Some (update_weight (- (83 / 2)) ((\<lambda>i. 0)(4 := 1))
              (update_weight 0 ((\<lambda>i. 0)(5 := 1))
                 \<lparr>meta = Map.empty, net = replicate 4 (replicate (16 ^ 6) 1), alpha = 7 / 8,
                  features = map create_iso_feature feats, feature_num = 28,
                  op_code = [0,1,2,3], history = []\<rparr>))"
proof -
  let ?ag = "\<lparr>meta = Map.empty, net = replicate 4 (replicate (16 ^ 6) (1::real)), alpha = 7 / 8,
      features = map create_iso_feature feats, feature_num = 28, op_code = [0,1,2,3],
      history = [((\<lambda>i. 0)(5 := 1), 0), ((\<lambda>i. 0)(4 := 1), 4)]\<rparr>"
  have fs: "features ?ag = map create_iso_feature feats" by simp
  have n: "map length (net ?ag) = replicate 4 (16 ^ 6)" by simp
  have h: "tables_hold ?ag ((\<lambda>i. 0)(c := 1))" for c :: nat
    by (rule tables_hold_configured [OF fs n]) (simp add: list_all_iff)
  have d: "close_episode_defined ?ag"
    using h [of 5] h [of 4] by (simp add: close_episode_defined_def)
  note v = example_first_update [of "[((\<lambda>i. 0)(5 := 1), 0), ((\<lambda>i. 0)(4 := 1), 4)]"]
  have s: "spec_close_calls ?ag = [(0, (\<lambda>i. 0)(5 := 1)), (- (83 / 2), (\<lambda>i. 0)(4 := 1))]"
    using v by (simp add: spec_close_calls_def)
  from close_episode_backward_pass [OF d] d v s show ?thesis by (simp add: replay_def)
qed

text \<open>
  C3. \<^verbatim>\<open>update_weight\<close> computes \<open>delta = alpha / feature_num * (target - value(state))\<close>
  once, from the value of the state before any table is written; \<^verbatim>\<open>feature_num\<close> is the
  number of (base feature, symmetry variant) pairs counted by the constructor (28 for the
  configured features) and no call changes it; \<open>delta\<close> is added to the entry
  \<^verbatim>\<open>net[i][f(state)]\<close> once for every base feature \<open>i\<close> and every feature \<open>f\<close> of its orbit.
  Entry by entry: the entry \<open>j\<close> of table \<open>i\<close> grows by \<open>delta\<close> times the number of features
  of orbit \<open>i\<close> whose index on the state is \<open>j\<close>. The hypotheses on the sizes say that every
  table read or written exists (outside them the source is undefined).
\<close>

theorem update_weight_adds_delta:
  assumes "ntuple_ctor stod open_in read_net args = Returned ag0"
    and "run_calls slide calls ag0 = Some ag"
    and "length (features ag) \<le> length (net ag)"
    and "\<forall>i<length (features ag). \<forall>f\<in>set (features ag ! i). feature_index f b < length (net ag ! i)"
    and "i < length (net ag)" and "j < length (net ag ! i)"
  shows "features ag = map create_iso_feature feats \<and>
         feature_num ag = int (length (concat (features ag))) \<and>
         feature_num ag = 28 \<and>
         net (update_weight target b ag) ! i ! j =
           net ag ! i ! j +
             alpha ag / real_of_int (feature_num ag) * (target - get_value ag b) *
             real (length (filter (\<lambda>f. feature_index f b = j)
                      (if i < length (features ag) then features ag ! i else []))) \<and>
         length (net (update_weight target b ag)) = length (net ag) \<and>
         length (net (update_weight target b ag) ! i) = length (net ag ! i)"
proof -
  have f0: "features ag0 = map create_iso_feature feats \<and>
            feature_num ag0 = int (length (concat (features ag0)))"
    using ntuple_ctor_fields [OF assms(1)] by simp
  have fr: "features ag = features ag0 \<and> feature_num ag = feature_num ag0"
    using run_calls_fields [OF assms(2)] by simp
  have n28: "feature_num ag = 28" using f0 fr configured_feature_num by simp
  have len: "length (net (update_weight target b ag)) = length (net ag) \<and>
             length (net (update_weight target b ag) ! i) = length (net ag ! i)"
    using outer_fold [OF assms(5,6), of "\<lambda>f. feature_index f b" _ "features ag" "length (features ag)"]
    by (simp add: update_weight_net)
  show ?thesis
    using f0 fr n28 len update_weight_pointwise [OF assms(5,6), of target b] by simp
qed

theorem update_weight_adds_delta_witness:
  "\<exists>ag0. ntuple_ctor (\<lambda>v. 1 / 2) (\<lambda>p. Some ()) (\<lambda>c. [[0], [0], [0], [0]]) ''load=w alpha=0.5''
            = Returned ag0 \<and>
         feature_num ag0 = 28 \<and> alpha ag0 = 1 / 2 \<and> get_value ag0 (\<lambda>i. 0) = 0 \<and>
         net (update_weight 28 (\<lambda>i. 0) ag0) ! 2 ! 0 = 2"
proof -
  let ?ag0 = "\<lparr>meta = agent ''load=w alpha=0.5'', net = [[0], [0], [0], [0]], alpha = 1 / 2,
               features = map create_iso_feature feats, feature_num = 28,
               op_code = [0,1,2,3], history = []\<rparr>"
  have c: "ntuple_ctor (\<lambda>v. 1 / 2) (\<lambda>p. Some ()) (\<lambda>c. [[0], [0], [0], [0]]) ''load=w alpha=0.5''
             = Returned ?ag0"
    using agent_load_alpha configured_feature_num
    by (simp add: ntuple_ctor_def weight_agent_ctor_def load_weights_def Let_def
          fold_snoc_map fold_add_length)
  have r: "run_calls (\<lambda>b op. (b, -1)) [] ?ag0 = Some ?ag0" by simp
  have idx: "feature_index f (\<lambda>i. 0) = 0"
    if "i < length (features ?ag0)" "f \<in> set (features ?ag0 ! i)" for i f
  proof -
    have "features ?ag0 ! i \<in> set (map create_iso_feature feats)"
      using that(1) by (simp del: map_map nth_map set_map)
    then show ?thesis using that(2) configured_no_hint feature_index_zero_board by blast
  qed
  have l: "length (features ?ag0) \<le> length (net ?ag0)" by (simp add: feats_def)
  have s: "\<forall>i<length (features ?ag0). \<forall>f\<in>set (features ?ag0 ! i).
             feature_index f (\<lambda>i. 0) < length (net ?ag0 ! i)"
  proof (intro allI impI ballI)
    fix i f assume i: "i < length (features ?ag0)" and f: "f \<in> set (features ?ag0 ! i)"
    have "i < 4" using i by (simp add: feats_def)
    then have "length (net ?ag0 ! i) = 1"
      by (auto simp: less_Suc_eq numeral_eq_Suc)
    then show "feature_index f (\<lambda>i. 0) < length (net ?ag0 ! i)" using idx [OF i f] by simp
  qed
  have v: "get_value ?ag0 (\<lambda>i. 0) = 0"
    by (simp add: get_value_def configured_features feature_index_zero_board upt_rec [of _ "numeral n" for n])
  have i2: "(2::nat) < length (net ?ag0)" by simp
  have j0: "(0::nat) < length (net ?ag0 ! 2)" by simp
  have cnt: "length (filter (\<lambda>f. feature_index f (\<lambda>i. 0) = 0) (features ?ag0 ! 2)) = 4"
    by (simp add: configured_features feature_index_zero_board)
  from update_weight_adds_delta [OF c r l s i2 j0, of 28] v cnt c
  show ?thesis by (intro exI [of _ ?ag0]) (simp add: feats_def)
qed

text \<open>
  C4 (as amended). With the configured base features and the orbits generated for them:
  for every board and each of the four rotations of the board the value of the rotated
  board is the value of the board; for every board and each of the eight symmetries
  (rotations and reflections) the contributions of the base features 0, 1 and 3 are the
  same on the transformed board; the value is the sum of the four contributions.
  (\<open>table_value_sym\<close> above adds the contribution of base feature 2 under the rotations.
  The part on the rotations rests on the order in which the sort leaves equal hashes, which
  decides the member that \<^verbatim>\<open>std::unique\<close> keeps; the part on the base features 0, 1 and 3
  does not, their orbits have eight different hashes.)
\<close>

theorem value_symmetry:
  assumes "features ag = map create_iso_feature feats"
  shows "(\<forall>g\<in>set rotations. get_value ag (b \<circ> g) = get_value ag b) \<and>
         (\<forall>g\<in>set symmetries. \<forall>i\<in>{0, 1, 3}. table_value ag i (b \<circ> g) = table_value ag i b) \<and>
         get_value ag b =
           table_value ag 0 b + table_value ag 1 b + table_value ag 2 b + table_value ag 3 b"
proof -
  have r: "set rotations \<subseteq> set symmetries" by (simp add: symmetries_def)
  have "get_value ag (b \<circ> g) = get_value ag b" if "g \<in> set rotations" for g
    using that r table_value_sym [OF assms, of g b]
    by (auto simp: get_value_tables [OF assms])
  moreover have "table_value ag i (b \<circ> g) = table_value ag i b"
    if "g \<in> set symmetries" "i \<in> {0, 1, 3}" for g i
    using that table_value_sym [OF assms, of g b] by auto
  ultimately show ?thesis using get_value_tables [OF assms] by blast
qed

theorem value_symmetry_witness:
  "get_value
     \<lparr>meta = Map.empty,
      net = [replicate (16 ^ 6) 0, replicate (16 ^ 6) 0, (replicate (16 ^ 6) 0)[1 := 1],
             replicate (16 ^ 6) 0],
      alpha = 0, features = map create_iso_feature feats, feature_num = 28,
      op_code = [0,1,2,3], history = []\<rparr>
     ((\<lambda>i. 0)(2 := 1) \<circ> rotate_cell) =
   get_value
     \<lparr>meta = Map.empty,
      net = [replicate (16 ^ 6) 0, replicate (16 ^ 6) 0, (replicate (16 ^ 6) 0)[1 := 1],
             replicate (16 ^ 6) 0],
      alpha = 0, features = map create_iso_feature feats, feature_num = 28,
      op_code = [0,1,2,3], history = []\<rparr>
     ((\<lambda>i. 0)(2 := 1)) \<and>
   table_value
     \<lparr>meta = Map.empty,
      net = [replicate (16 ^ 6) 0, replicate (16 ^ 6) 0, (replicate (16 ^ 6) 0)[1 := 1],
             replicate (16 ^ 6) 0],
      alpha = 0, features = map create_iso_feature feats, feature_num = 28,
      op_code = [0,1,2,3], history = []\<rparr>
     3 ((\<lambda>i. 0)(2 := 1) \<circ> reflect_cell) =
   table_value
     \<lparr>meta = Map.empty,
      net = [replicate (16 ^ 6) 0, replicate (16 ^ 6) 0, (replicate (16 ^ 6) 0)[1 := 1],
             replicate (16 ^ 6) 0],
      alpha = 0, features = map create_iso_feature feats, feature_num = 28,
      op_code = [0,1,2,3], history = []\<rparr>
     3 ((\<lambda>i. 0)(2 := 1))"
proof -
  let ?ag = "\<lparr>meta = Map.empty,
      net = [replicate (16 ^ 6) 0, replicate (16 ^ 6) 0, (replicate (16 ^ 6) 0)[1 := 1],
             replicate (16 ^ 6) (0::real)],
      alpha = 0, features = map create_iso_feature feats, feature_num = 28,
      op_code = [0,1,2,3], history = []\<rparr>"
  have fs: "features ?ag = map create_iso_feature feats" by simp
  have r: "rotate_cell \<in> set rotations" by (simp add: rotations_def)
  have m: "reflect_cell \<in> set symmetries"
    by (simp add: symmetries_def reflections_def rotations_def)
  from value_symmetry [OF fs, of "(\<lambda>i. 0)(2 := 1)"] r m show ?thesis by blast
qed

text \<open>
  The claim as it was written says this of the whole value and all eight symmetries. The
  orbit of base feature 2, \<open>[5,6,7,9,10,11]\<close>, is what fails it: the feature covers the
  same six cells as its mirror image \<open>[9,10,11,5,6,7]\<close>, so the two have one hash and
  \<^verbatim>\<open>std::unique\<close> keeps one of them, although they read the cells in different orders. Four
  of the eight index mappings are left, and a reflection of the board is read through the
  four that are gone. Here table 2 holds 1 at index 1 and 0 elsewhere, the other tables
  are 0, and the board holds one tile of rank 1 in cell 2: its value is 1, the value of the
  board seen through the reflection table is 0.
\<close>

theorem reflection_breaks_value:
  "reflect_cell \<in> set symmetries \<and>
   get_value
     \<lparr>meta = Map.empty,
      net = [replicate (16 ^ 6) 0, replicate (16 ^ 6) 0, (replicate (16 ^ 6) 0)[1 := 1],
             replicate (16 ^ 6) 0],
      alpha = 0, features = map create_iso_feature feats, feature_num = 28,
      op_code = [0,1,2,3], history = []\<rparr>
     ((\<lambda>i. 0)(2 := 1)) = 1 \<and>
   get_value
     \<lparr>meta = Map.empty,
      net = [replicate (16 ^ 6) 0, replicate (16 ^ 6) 0, (replicate (16 ^ 6) 0)[1 := 1],
             replicate (16 ^ 6) 0],
      alpha = 0, features = map create_iso_feature feats, feature_num = 28,
      op_code = [0,1,2,3], history = []\<rparr>
     ((\<lambda>i. 0)(2 := 1) \<circ> reflect_cell) = 0"
proof -
  let ?ag = "\<lparr>meta = Map.empty,
      net = [replicate (16 ^ 6) 0, replicate (16 ^ 6) 0, (replicate (16 ^ 6) 0)[1 := 1],
             replicate (16 ^ 6) (0::real)],
      alpha = 0, features = map create_iso_feature feats, feature_num = 28,
      op_code = [0,1,2,3], history = []\<rparr>"
  let ?b = "(\<lambda>i. 0)(2 := 1) :: board"
  have fs: "features ?ag = map create_iso_feature feats" by simp
  have b1: "list_all (\<lambda>c. ?b c < 16) [0..<16]" by (simp add: list_all_iff)
  have b2: "list_all (\<lambda>c. (?b \<circ> reflect_cell) c < 16) [0..<16]" by (simp add: list_all_iff)
  have z: "table_value ?ag 0 c = 0 \<and> table_value ?ag 1 c = 0 \<and> table_value ?ag 3 c = 0"
    if "list_all (\<lambda>i. c i < 16) [0..<16]" for c
    using table_value_zero [OF fs _ _ that] by simp
  have t1: "table_value ?ag 2 ?b = 1"
    by (simp add: table_value_def configured_nth feature_index_def)
  have t2: "table_value ?ag 2 (?b \<circ> reflect_cell) = 0"
    by (simp add: table_value_def configured_nth feature_index_def reflect_cell_def
          reflection_matching_def push_bit_eq_mult)
  have m: "reflect_cell \<in> set symmetries"
    by (simp add: symmetries_def reflections_def rotations_def)
  have u: "table_value ?ag 0 ?b = 0" "table_value ?ag 1 ?b = 0" "table_value ?ag 3 ?b = 0"
    using z [OF b1] by blast+
  have v: "table_value ?ag 0 (?b \<circ> reflect_cell) = 0"
          "table_value ?ag 1 (?b \<circ> reflect_cell) = 0"
          "table_value ?ag 3 (?b \<circ> reflect_cell) = 0"
    using z [OF b2] by blast+
  have g1: "get_value ?ag ?b = 1"
    unfolding get_value_tables [OF fs] u t1 by simp
  have g2: "get_value ?ag (?b \<circ> reflect_cell) = 0"
    unfolding get_value_tables [OF fs] v t2 by simp
  from m g1 g2 show ?thesis by blast
qed

text \<open>
  C5. For every base feature (positions 0..15 or \<open>-1\<close>) the number of features of the
  deduplicated orbit divides 8, and applying the rotation four times to a member of the
  orbit gives a feature with the hash of that member: it gives the member back. The
  rotation is \<open>rotate_keeping_hint\<close>, the rotation table on every position other than the
  hint slot; on a member of the orbit it is what \<^verbatim>\<open>create_iso_feature\<close> computes for the next
  variant: \<^verbatim>\<open>left_rotate\<close>, and the hint slot appended when the base feature has one.
\<close>

theorem orbit_size_and_rotation:
  "valid_feature feat \<Longrightarrow>
   length (create_iso_feature feat) dvd 8 \<and>
   (\<forall>v\<in>set (create_iso_feature feat).
      rotate_keeping_hint v = (if -1 \<in> set feat then left_rotate v @ [-1] else left_rotate v) \<and>
      rotate_keeping_hint (rotate_keeping_hint (rotate_keeping_hint (rotate_keeping_hint v))) = v \<and>
      hash (rotate_keeping_hint (rotate_keeping_hint (rotate_keeping_hint (rotate_keeping_hint v))))
        = hash v)"
proof -
  assume val: "valid_feature feat"
  have "length (create_iso_feature feat) \<in> {1, 2, 4, 8}" using val by (rule orbit_size)
  then have d: "length (create_iso_feature feat) dvd 8" by auto
  have "rotate_keeping_hint v = (if -1 \<in> set feat then left_rotate v @ [-1] else left_rotate v) \<and>
      rotate_keeping_hint (rotate_keeping_hint (rotate_keeping_hint (rotate_keeping_hint v))) = v \<and>
      hash (rotate_keeping_hint (rotate_keeping_hint (rotate_keeping_hint (rotate_keeping_hint v))))
        = hash v"
    if "v \<in> set (create_iso_feature feat)" for v
  proof -
    note m = rotate_keeping_hint_member [OF val that]
    from m have r4: "rotate_keeping_hint (rotate_keeping_hint (rotate_keeping_hint (rotate_keeping_hint v))) = v"
      by (rule conjunct2)
    have "hash (rotate_keeping_hint (rotate_keeping_hint (rotate_keeping_hint (rotate_keeping_hint v))))
        = hash v"
      by (rule arg_cong [OF r4])
    with m show ?thesis by blast
  qed
  with d show ?thesis by blast
qed

theorem orbit_size_and_rotation_witness:
  "valid_feature [6,7,9,10,11,-1] \<and>
   length (create_iso_feature [6,7,9,10,11,-1]) = 8 \<and> (8::nat) dvd 8 \<and>
   [10,11,5,6,7,-1] \<in> set (create_iso_feature [6,7,9,10,11,-1]) \<and>
   rotate_keeping_hint [10,11,5,6,7,-1] = [6,2,9,5,1,-1] \<and>
   left_rotate [10,11,5,6,7,-1] @ [-1] = [6,2,9,5,1,-1] \<and>
   rotate_keeping_hint (rotate_keeping_hint (rotate_keeping_hint (rotate_keeping_hint
     [10,11,5,6,7,-1]))) = [10,11,5,6,7,-1] \<and>
   hash (rotate_keeping_hint (rotate_keeping_hint (rotate_keeping_hint (rotate_keeping_hint
     [10,11,5,6,7,-1])))) = hash [10,11,5,6,7,-1] \<and>
   hash [10,11,5,6,7,-1] = -3296"
proof -
  have a: "valid_feature [6,7,9,10,11,-1]" by (simp add: valid_feature_def valid_position_def)
  have e: "create_iso_feature [6,7,9,10,11,-1] =
      [[9,13,6,10,14,-1], [10,14,5,9,13,-1], [6,7,9,10,11,-1], [10,11,5,6,7,-1],
       [5,4,10,9,8,-1], [5,1,10,6,2,-1], [9,8,6,5,4,-1], [6,2,9,5,1,-1]]"
    by code_simp
  have r: "rotate_keeping_hint [10,11,5,6,7,-1] = [6,2,9,5,1,-1]" by code_simp
  have h: "hash [10,11,5,6,7,-1] = -3296" by code_simp
  have m: "[10,11,5,6,7,-1] \<in> set (create_iso_feature [6,7,9,10,11,-1])" unfolding e by simp
  from orbit_size_and_rotation [OF a] e m r h a show ?thesis by auto
qed

text \<open>
  C6. On every reachable board the number of empty cells that \<^verbatim>\<open>Feature::operator()\<close> counts
  is at most 15, so it fits in four bits, and the index of every feature (positions 0..15
  or \<open>-1\<close>) is below \<open>16 ^ length\<close>, the size of its table. (\<open>empty_count_empty_board\<close> and
  \<open>hint_index_empty_board\<close> above show the boundary: on the empty board the count is 16,
  and a feature with a hint slot leaves its range there; \<open>no_hint_index_in_range\<close> shows
  that the configured features, which have no hint slot, stay in range even there.)
\<close>

theorem index_in_range:
  "reachable_board b \<Longrightarrow> valid_feature f \<Longrightarrow>
   empty_count b \<le> 15 \<and> feature_index f b < 16 ^ length f"
proof -
  assume r: "reachable_board b" and v: "valid_feature f"
  have e: "empty_count b \<le> 15" using r by (rule empty_count_reachable)
  have c: "list_all (\<lambda>i. b i < 16) [0..<16]" using r by (simp add: reachable_board_def)
  have "feature_index f b < 16 ^ (0 + length f)"
    unfolding feature_index_def Let_def
    by (rule index_fold_bound [OF e c v]) simp
  with e show ?thesis by simp
qed

theorem index_in_range_witness:
  "reachable_board ((\<lambda>i. 0)(6 := 1, 7 := 2, 9 := 3, 10 := 4, 11 := 5)) \<and>
   valid_feature [6,7,9,10,11,-1] \<and>
   empty_count ((\<lambda>i. 0)(6 := 1, 7 := 2, 9 := 3, 10 := 4, 11 := 5)) \<le> 15 \<and>
   feature_index [6,7,9,10,11,-1] ((\<lambda>i. 0)(6 := 1, 7 := 2, 9 := 3, 10 := 4, 11 := 5)) < 16 ^ 6"
proof -
  have r: "reachable_board ((\<lambda>i. 0)(6 := 1, 7 := 2, 9 := 3, 10 := 4, 11 := 5))"
    by (simp add: reachable_board_def upt_rec [of _ "numeral n" for n])
  have v: "valid_feature [6,7,9,10,11,-1]"
    by (simp add: valid_feature_def valid_position_def)
  from index_in_range [OF r v] r v show ?thesis by simp
qed

text \<open>
  C7 (as amended). For every base feature with a hint slot \<open>-1\<close> (the other positions in
  0..15), every variant that \<^verbatim>\<open>create_iso_feature\<close> generates is the list of the positions
  other than \<open>-1\<close>, in their order, each mapped through one and the same composition of the
  rotation and reflection tables, followed by a single \<open>-1\<close> at the end. (So the hint slot
  is where it was exactly when it was the last and only one: \<open>hint_last_kept\<close> above.)
\<close>

theorem variants_append_hint:
  "valid_feature feat \<Longrightarrow> -1 \<in> set feat \<Longrightarrow> v \<in> set (create_iso_feature feat) \<Longrightarrow>
   \<exists>g\<in>set variant_maps.
      v = map g (real_positions feat) @ [-1] \<and> -1 \<notin> set (map g (real_positions feat))"
proof -
  assume val: "valid_feature feat" and h: "-1 \<in> set feat" and v: "v \<in> set (create_iso_feature feat)"
  from create_iso_feature_variant [OF val v] h obtain g where
    g: "g \<in> set variant_maps" "v = map g (real_positions feat) @ [-1]"
    by auto
  have "on_board (map g (real_positions feat))"
    using variant_on_board [OF on_board_real_positions [OF val] g(1)] .
  then have "-1 \<notin> set (map g (real_positions feat))"
    by (auto simp: on_board_def list_all_iff)
  with g show ?thesis by blast
qed

theorem variants_append_hint_witness:
  "valid_feature [-1, 0] \<and> [15, -1] \<in> set (create_iso_feature [-1, 0]) \<and>
   (\<exists>g\<in>set variant_maps.
      [15, -1] = map g (real_positions [-1, 0]) @ [-1] \<and> -1 \<notin> set (map g (real_positions [-1, 0])))"
proof -
  have a: "valid_feature [-1, 0]" by (simp add: valid_feature_def valid_position_def)
  have b: "(-1::int) \<in> set [-1, 0]" by simp
  have "create_iso_feature [-1, 0] = [[15, -1], [12, -1], [3, -1], [0, -1]]" by code_simp
  then have c: "[15, -1] \<in> set (create_iso_feature [-1, 0])" by simp
  from variants_append_hint [OF a b c] a c show ?thesis by blast
qed

text \<open>
  The claim as it was written keeps the hint slot at its place wherever it stands. The base
  feature \<open>[-1, 0]\<close> has it first; its variant \<open>[15, -1]\<close> has it last.
\<close>

theorem hint_first_counterexample:
  "[15, -1] \<in> set (create_iso_feature [-1, 0]) \<and> \<not> hint_slots_kept [-1, 0] [15, -1]"
  by code_simp

text \<open>
  C8 (as amended). After any sequence of \<^verbatim>\<open>take_action\<close> calls followed by one
  \<^verbatim>\<open>close_episode\<close> call the trajectory is empty, provided the trajectory is not empty
  when \<^verbatim>\<open>close_episode\<close> is called, that is, provided the sequence is not empty or the
  trajectory was not empty before it, and provided the tables hold the indices of every
  board that is evaluated: the afterstates of the moves tried by \<^verbatim>\<open>take_action\<close> and the
  boards of the trajectory. Then \<^verbatim>\<open>close_episode\<close> is called where it is defined, it
  returns, and the trajectory is empty. \<^verbatim>\<open>open_episode\<close> leaves the trajectory empty
  whatever it held; every \<^verbatim>\<open>take_action\<close> call that stays inside the tables adds exactly one
  entry, whether or not a move is legal.
\<close>

theorem episode_bookkeeping:
  "((bs \<noteq> [] \<or> history ag \<noteq> []) \<and>
    list_all (\<lambda>b. take_action_defined slide b ag \<and> tables_hold ag b) bs \<and>
    list_all (\<lambda>entry. tables_hold ag (fst entry)) (history ag) \<longrightarrow>
      close_episode_defined (take_actions slide bs ag) \<and>
      (\<exists>ag'. close_episode (take_actions slide bs ag) = Some ag' \<and> history ag' = [])) \<and>
   history (open_episode ag) = [] \<and>
   (take_action_defined slide b ag \<longrightarrow>
      length (history (snd (take_action slide b ag))) = Suc (length (history ag)))"
proof -
  have "close_episode_defined (take_actions slide bs ag) \<and>
      (\<exists>ag'. close_episode (take_actions slide bs ag) = Some ag' \<and> history ag' = [])"
    if ne: "bs \<noteq> [] \<or> history ag \<noteq> []"
      and bs: "list_all (\<lambda>b. take_action_defined slide b ag \<and> tables_hold ag b) bs"
      and h: "list_all (\<lambda>entry. tables_hold ag (fst entry)) (history ag)"
  proof -
    from ne have "length bs + length (history ag) \<noteq> 0" by auto
    then have n: "history (take_actions slide bs ag) \<noteq> []"
      using length_history_take_actions [of slide bs ag] by auto
    have "tables_hold ag c" if "c \<in> set (rev bs @ map fst (history ag))" for c
      using that bs h by (auto simp: list_all_iff)
    then have "\<forall>c\<in>set (map fst (history (take_actions slide bs ag))).
                 tables_hold (take_actions slide bs ag) c"
      unfolding boards_take_actions by simp
    then have "close_episode_defined (take_actions slide bs ag)"
      using n unfolding close_episode_defined_iff by blast
    then show ?thesis using close_episode_empties [OF n] by simp
  qed
  moreover have "history (open_episode ag) = []" by (simp add: open_episode_def)
  moreover have "length (history (snd (take_action slide b ag))) = Suc (length (history ag))"
    using history_take_action [of slide b ag] by auto
  ultimately show ?thesis by blast
qed

theorem episode_bookkeeping_witness:
  "take_action_defined
     (\<lambda>b op. if op = 0 then ((\<lambda>i. 0)(0 := 3), 0)
              else if op = 1 then ((\<lambda>i. 0)(5 := 3), 0)
              else if op = 2 then ((\<lambda>i. 0)(8 := 3), 0)
              else (b, -1))
     ((\<lambda>i. 0)(4 := 3))
     \<lparr>meta = Map.empty, net = replicate 4 (replicate (16 ^ 6) 0), alpha = 1 / 10,
      features = map create_iso_feature feats, feature_num = 28,
      op_code = [0,1,2,3], history = []\<rparr> \<and>
   tables_hold
     \<lparr>meta = Map.empty, net = replicate 4 (replicate (16 ^ 6) 0), alpha = 1 / 10,
      features = map create_iso_feature feats, feature_num = 28,
      op_code = [0,1,2,3], history = []\<rparr>
     ((\<lambda>i. 0)(4 := 3)) \<and>
   (\<exists>ag'. close_episode
      (take_actions
         (\<lambda>b op. if op = 0 then ((\<lambda>i. 0)(0 := 3), 0)
                  else if op = 1 then ((\<lambda>i. 0)(5 := 3), 0)
                  else if op = 2 then ((\<lambda>i. 0)(8 := 3), 0)
                  else (b, -1))
         [(\<lambda>i. 0)(4 := 3)]
         \<lparr>meta = Map.empty, net = replicate 4 (replicate (16 ^ 6) 0), alpha = 1 / 10,
          features = map create_iso_feature feats, feature_num = 28,
          op_code = [0,1,2,3], history = []\<rparr>) = Some ag' \<and> history ag' = []) \<and>
   length (history (snd (take_action
      (\<lambda>b op. if op = 0 then ((\<lambda>i. 0)(0 := 3), 0)
               else if op = 1 then ((\<lambda>i. 0)(5 := 3), 0)
               else if op = 2 then ((\<lambda>i. 0)(8 := 3), 0)
               else (b, -1))
      ((\<lambda>i. 0)(4 := 3))
      \<lparr>meta = Map.empty, net = replicate 4 (replicate (16 ^ 6) 0), alpha = 1 / 10,
       features = map create_iso_feature feats, feature_num = 28,
       op_code = [0,1,2,3], history = []\<rparr>))) = 1"
proof -
  let ?slide = "\<lambda>(b::board) (op::int). if op = 0 then ((\<lambda>i. 0)(0 := 3), 0::int)
                  else if op = 1 then ((\<lambda>i. 0)(5 := 3), 0)
                  else if op = 2 then ((\<lambda>i. 0)(8 := 3), 0)
                  else (b, -1)"
  let ?ag = "\<lparr>meta = Map.empty, net = replicate 4 (replicate (16 ^ 6) (0::real)), alpha = 1 / 10,
      features = map create_iso_feature feats, feature_num = 28,
      op_code = [0,1,2,3], history = []\<rparr>"
  have fs: "features ?ag = map create_iso_feature feats" by simp
  have n: "map length (net ?ag) = replicate 4 (16 ^ 6)" by simp
  have h: "tables_hold ?ag ((\<lambda>i. 0)(c := 3))" for c :: nat
    by (rule tables_hold_configured [OF fs n]) (simp add: list_all_iff)
  have t: "take_action_defined ?slide ((\<lambda>i. 0)(4 := 3)) ?ag"
    using h [of 0] h [of 5] h [of 8] by (simp add: take_action_defined_def)
  from episode_bookkeeping [of "[(\<lambda>i. 0)(4 := 3)]" ?ag ?slide "(\<lambda>i. 0)(4 := 3)"] t h [of 4]
  show ?thesis by simp
qed

text \<open>
  The claim as it was written says "any sequence". With no call at all on a trajectory that
  \<^verbatim>\<open>open_episode\<close> has just emptied, \<^verbatim>\<open>close_episode\<close> reads the top of an empty stack:
  there is no state after it. (The tables of this agent hold every index.)
\<close>

theorem close_episode_empty_counterexample:
  "close_episode (take_actions (\<lambda>b op. (b, -1)) []
      (open_episode \<lparr>meta = Map.empty, net = replicate 4 (replicate (16 ^ 6) 0), alpha = 1 / 10,
         features = map create_iso_feature feats, feature_num = 28,
         op_code = [0,1,2,3], history = [((\<lambda>i. 0)(4 := 3), 0)]\<rparr>)) = None"
  by (simp add: close_episode_def take_actions_def open_episode_def)

text \<open>
  C9. When the file of the \<^verbatim>\<open>load\<close> option does not open for reading, or the file of the
  \<^verbatim>\<open>save\<close> option does not open for writing, the process exits at once with status \<open>-1\<close>:
  \<^verbatim>\<open>load_weights\<close> and \<^verbatim>\<open>save_weights\<close> exit, and so do the constructor and the destructor
  that call them; no agent is returned and nothing is written.
\<close>

theorem file_open_failure_exits:
  "(open_in path = None \<longrightarrow> load_weights open_in read_net path w = Exited (-1)) \<and>
   (\<not> open_out path \<longrightarrow> save_weights open_out path w = Exited (-1)) \<and>
   (agent args ''load'' = Some path \<and> open_in path = None \<longrightarrow>
      ntuple_ctor stod open_in read_net args = Exited (-1)) \<and>
   (meta w ''save'' = Some path \<and> \<not> open_out path \<longrightarrow>
      weight_agent_dtor open_out w = Exited (-1))"
  by (simp add: load_weights_def save_weights_def ntuple_ctor_def weight_agent_ctor_def
      weight_agent_dtor_def Let_def init_weights_def split: option.splits)

theorem file_open_failure_exits_witness:
  "load_weights (\<lambda>p. None :: unit option) (\<lambda>c. []) ''w.bin'' \<lparr>meta = Map.empty, net = [], alpha = 0\<rparr>
     = Exited (-1) \<and>
   save_weights (\<lambda>p. False) ''w.bin'' \<lparr>meta = Map.empty, net = [], alpha = 0\<rparr> = Exited (-1) \<and>
   ntuple_ctor (\<lambda>v. 0) (\<lambda>p. None :: unit option) (\<lambda>c. []) ''load=w.bin'' = Exited (-1) \<and>
   weight_agent_dtor (\<lambda>p. False) \<lparr>meta = [''save'' \<mapsto> ''w.bin''], net = [], alpha = 0\<rparr>
     = Exited (-1)"
  using file_open_failure_exits
    [of "\<lambda>p. None :: unit option" "''w.bin''" "\<lambda>c. []" "\<lparr>meta = Map.empty, net = [], alpha = 0\<rparr>"
        "\<lambda>p. False" "''load=w.bin''" "\<lambda>v. 0"]
    file_open_failure_exits
    [of "\<lambda>p. None :: unit option" "''w.bin''" "\<lambda>c. []"
        "\<lparr>meta = [''save'' \<mapsto> ''w.bin''], net = [], alpha = 0\<rparr>"
        "\<lambda>p. False" "''load=w.bin''" "\<lambda>v. 0"]
    agent_load
  by simp

text \<open>
  C10 (as amended). An agent constructed without an \<^verbatim>\<open>alpha\<close> option has learning rate 0, and
  it keeps it through every sequence of calls that are defined. Then, on tables of finite
  values that hold the indices of the state and for a finite target, every \<^verbatim>\<open>update_weight\<close>
  call leaves every table entry as it was, and every \<^verbatim>\<open>close_episode\<close> that is defined
  leaves every table as the constructor built it. The tables of \<open>update_weight\<close> hold real
  numbers, which are finite; the fifth part says the same of \<open>update_weight_ieee\<close> on the
  tables of the agent taken as tables of finite \<^verbatim>\<open>double\<close> values.
\<close>

theorem no_alpha_no_learning:
  assumes "ntuple_ctor stod open_in read_net args = Returned ag0"
    and "agent args ''alpha'' = None"
    and "run_calls slide calls ag0 = Some ag"
    and "calls_defined slide calls ag0"
    and "tables_hold ag b"
  shows "alpha ag0 = 0 \<and> alpha ag = 0 \<and> net ag = net ag0 \<and>
         update_weight target b ag = ag \<and>
         update_weight_ieee (Finite (alpha ag)) (feature_num ag) (features ag) (Finite target) b
           (map (map Finite) (net ag)) = map (map Finite) (net ag) \<and>
         (close_episode_defined ag \<longrightarrow> (\<exists>ag'. close_episode ag = Some ag' \<and> net ag' = net ag0))"
proof -
  have a0: "alpha ag0 = 0" using assms(1,2) by (rule ntuple_ctor_alpha)
  have a: "net ag = net ag0 \<and> alpha ag = 0" using a0 assms(3) by (rule run_calls_alpha0)
  have u: "update_weight target b ag = ag" using a by (simp add: update_weight_alpha0)
  have "feature_num ag = 28"
    using ntuple_ctor_fields [OF assms(1)] run_calls_fields [OF assms(3)] configured_feature_num
    by simp
  then have n: "feature_num ag \<noteq> 0" by simp
  have i: "update_weight_ieee (Finite (alpha ag)) (feature_num ag) (features ag) (Finite target) b
           (map (map Finite) (net ag)) = map (map Finite) (net ag)"
    unfolding update_weight_ieee_finite [OF assms(5) n] u ..
  have c: "close_episode_defined ag \<longrightarrow> (\<exists>ag'. close_episode ag = Some ag' \<and> net ag' = net ag0)"
  proof
    assume "close_episode_defined ag"
    then have "history ag \<noteq> []" by (simp add: close_episode_defined_def)
    then obtain ag' where s: "close_episode ag = Some ag'"
      using close_episode_empties by blast
    with a close_episode_alpha0 [of ag ag'] have "net ag' = net ag0" by simp
    with s show "\<exists>ag'. close_episode ag = Some ag' \<and> net ag' = net ag0" by blast
  qed
  from a0 a u i c show ?thesis by blast
qed

theorem no_alpha_no_learning_witness:
  "\<exists>ag0 ag.
     ntuple_ctor (\<lambda>v. 0) (\<lambda>p. Some ()) (\<lambda>c. replicate 4 (replicate (16 ^ 6) 0)) ''load=w.bin''
       = Returned ag0 \<and>
     agent ''load=w.bin'' ''alpha'' = None \<and>
     run_calls
       (\<lambda>b op. if op = 0 then ((\<lambda>i. 0)(0 := 3), 0)
                else if op = 1 then ((\<lambda>i. 0)(5 := 3), 0)
                else if op = 2 then ((\<lambda>i. 0)(8 := 3), 0)
                else (b, -1))
       [TakeAction ((\<lambda>i. 0)(4 := 3)), UpdateWeight 5 ((\<lambda>i. 0)(4 := 3)), CloseEpisode] ag0 = Some ag \<and>
     calls_defined
       (\<lambda>b op. if op = 0 then ((\<lambda>i. 0)(0 := 3), 0)
                else if op = 1 then ((\<lambda>i. 0)(5 := 3), 0)
                else if op = 2 then ((\<lambda>i. 0)(8 := 3), 0)
                else (b, -1))
       [TakeAction ((\<lambda>i. 0)(4 := 3)), UpdateWeight 5 ((\<lambda>i. 0)(4 := 3)), CloseEpisode] ag0 \<and>
     tables_hold ag ((\<lambda>i. 0)(4 := 3)) \<and>
     alpha ag0 = 0 \<and> net ag = net ag0 \<and> net ag0 = replicate 4 (replicate (16 ^ 6) 0) \<and>
     update_weight 1 ((\<lambda>i. 0)(4 := 3)) ag = ag \<and>
     update_weight_ieee (Finite 0) 28 (features ag) (Finite 1) ((\<lambda>i. 0)(4 := 3))
       (map (map Finite) (net ag)) = map (map Finite) (net ag)"
proof -
  let ?slide = "\<lambda>(b::board) (op::int). if op = 0 then ((\<lambda>i. 0)(0 := 3), 0::int)
                  else if op = 1 then ((\<lambda>i. 0)(5 := 3), 0)
                  else if op = 2 then ((\<lambda>i. 0)(8 := 3), 0)
                  else (b, -1)"
  let ?b = "(\<lambda>i. 0)(4 := 3) :: board"
  let ?ag0 = "\<lparr>meta = agent ''load=w.bin'', net = replicate 4 (replicate (16 ^ 6) (0::real)),
               alpha = 0, features = map create_iso_feature feats, feature_num = 28,
               op_code = [0,1,2,3], history = []\<rparr>"
  have c: "ntuple_ctor (\<lambda>v. 0) (\<lambda>p. Some ()) (\<lambda>c. replicate 4 (replicate (16 ^ 6) 0)) ''load=w.bin''
             = Returned ?ag0"
    using agent_load_only configured_feature_num
    by (simp add: ntuple_ctor_def weight_agent_ctor_def load_weights_def Let_def
          fold_snoc_map fold_add_length)
  have a: "agent ''load=w.bin'' ''alpha'' = None" using agent_load_only by simp
  have fs: "features ?ag0 = map create_iso_feature feats" by simp
  have n: "map length (net ?ag0) = replicate 4 (16 ^ 6)" by simp
  have h: "tables_hold ?ag0 ((\<lambda>i. 0)(k := 3))" for k :: nat
    by (rule tables_hold_configured [OF fs n]) (simp add: list_all_iff)
  have t: "take_action_defined ?slide ?b ?ag0"
    using h [of 0] h [of 5] h [of 8] by (simp add: take_action_defined_def)
  let ?ag1 = "snd (take_action ?slide ?b ?ag0)"
  let ?ag2 = "update_weight 5 ?b ?ag1"
  obtain rew where h1: "history ?ag1 = [(?b, rew)]"
    using history_take_action [of ?slide ?b ?ag0] by auto
  have d2: "close_episode_defined ?ag2"
    using h1 h [of 4] by (simp add: close_episode_defined_def)
  then have "history ?ag2 \<noteq> []" by (simp add: close_episode_defined_def)
  then obtain ag where e: "close_episode ?ag2 = Some ag"
    using close_episode_empties by blast
  have r: "run_calls ?slide [TakeAction ?b, UpdateWeight 5 ?b, CloseEpisode] ?ag0 = Some ag"
    using e by simp
  have d: "calls_defined ?slide [TakeAction ?b, UpdateWeight 5 ?b, CloseEpisode] ?ag0"
    using t h [of 4] d2 e by simp
  have same: "net ag = net ?ag0 \<and> alpha ag = 0"
    by (rule run_calls_alpha0 [OF _ r]) simp
  have "features ag = features ?ag0" using run_calls_fields [OF r] by simp
  then have th: "tables_hold ag ?b"
    using same h [of 4] tables_hold_cong [of ag ?ag0 ?b] by simp
  have f28: "feature_num ag = 28" using run_calls_fields [OF r] by simp
  from no_alpha_no_learning [OF c a r d th, of 1] c a r d th same f28
  show ?thesis by (intro exI [of _ ?ag0] exI [of _ ag]) simp
qed

text \<open>
  The claim as it was written says this of every \<^verbatim>\<open>update_weight\<close> call. With learning rate 0
  the source still executes \<^verbatim>\<open>net[i][idx] += tg\<close> with \<open>tg = 0 / 28 * (target - value)\<close>, and
  that is NaN as soon as the value of the state is not finite. Here table 2 holds
  \<open>+\<infinity>\<close> at index 1, as a weight file can, and every other entry is 0. The board with one
  tile of rank 1 in cell 2 reads that entry, so its value is \<open>+\<infinity>\<close>; \<^verbatim>\<open>update_weight\<close> with
  learning rate 0 and target 5 turns entry 0 of table 2, which was 0, into NaN.
\<close>

theorem zero_rate_writes_nan:
  "get_value_ieee
     [replicate (16 ^ 6) (Finite 0), replicate (16 ^ 6) (Finite 0),
      (replicate (16 ^ 6) (Finite 0))[1 := PlusInfinity], replicate (16 ^ 6) (Finite 0)]
     (map create_iso_feature feats) ((\<lambda>i. 0)(2 := 1)) = PlusInfinity \<and>
   [replicate (16 ^ 6) (Finite 0), replicate (16 ^ 6) (Finite 0),
    (replicate (16 ^ 6) (Finite 0))[1 := PlusInfinity], replicate (16 ^ 6) (Finite 0)] ! 2 ! 0
     = Finite 0 \<and>
   update_weight_ieee (Finite 0) 28 (map create_iso_feature feats) (Finite 5) ((\<lambda>i. 0)(2 := 1))
     [replicate (16 ^ 6) (Finite 0), replicate (16 ^ 6) (Finite 0),
      (replicate (16 ^ 6) (Finite 0))[1 := PlusInfinity], replicate (16 ^ 6) (Finite 0)] ! 2 ! 0
     = NaN"
proof -
  let ?T = "[replicate (16 ^ 6) (Finite 0), replicate (16 ^ 6) (Finite 0),
      (replicate (16 ^ 6) (Finite 0))[1 := PlusInfinity], replicate (16 ^ 6) (Finite 0)]"
  let ?b = "(\<lambda>i. 0)(2 := 1) :: board"
  have l: "length (map create_iso_feature feats) = 4" by (simp add: feats_def)
  have v: "get_value_ieee ?T (map create_iso_feature feats) ?b = PlusInfinity"
    unfolding get_value_ieee_tables [OF l] configured_nth
    by (simp add: feature_index_def push_bit_eq_mult)
  have e: "?T ! 2 ! 0 = Finite 0" by simp
  have i: "(2::nat) < length ?T" by simp
  have j: "(0::nat) < length (?T ! 2)" by simp
  have k: "(2::nat) < length (map create_iso_feature feats)" by (simp add: feats_def)
  have cnt: "length (filter (\<lambda>f. feature_index f ?b = 0) (map create_iso_feature feats ! 2)) = 3"
    unfolding configured_nth by (simp add: feature_index_def push_bit_eq_mult)
  have "update_weight_ieee (Finite 0) 28 (map create_iso_feature feats) (Finite 5) ?b ?T ! 2 ! 0 = NaN"
    unfolding update_weight_ieee_pointwise [OF i j k] v cnt e
    by (simp add: double_sub_def numeral_3_eq_3)
  with v e show ?thesis by blast
qed

end
